theory Spec2Isabelle
  imports Complex_Main "HOL-Library.AList"
begin

section \<open>A distance-vector routing node (bfclient.py)\<close>

text \<open>
  The theory embeds the routing engine of \<^verbatim>\<open>bfclient.py\<close>: the table \<^verbatim>\<open>nodes\<close>, the
  Bellman-Ford pass \<^verbatim>\<open>estimate_costs\<close>, the merge of an inbound vector \<^verbatim>\<open>update_costs\<close>,
  the poisoned broadcast \<^verbatim>\<open>broadcast_costs\<close> and the link commands \<^verbatim>\<open>linkdown\<close>,
  \<^verbatim>\<open>linkup\<close> and \<^verbatim>\<open>linkchange\<close>.

  Conventions of the embedding.
  \<^item> A Python dictionary is an association list in insertion order (the order
    \<^verbatim>\<open>items()\<close> iterates in); a dictionary has distinct keys.
  \<^item> The globals \<^verbatim>\<open>me\<close> and \<^verbatim>\<open>run_args.timeout\<close> are parameters \<open>me\<close> and \<open>timeout\<close>;
    the global \<^verbatim>\<open>nodes\<close> is passed in and returned.
  \<^item> A handler takes the key \<^verbatim>\<open>addr2key(host, port)\<close> as its address argument.
  \<^item> A raised exception is \<open>Inl\<close>; a handler that returns gives \<open>Inr\<close> of the message
    it printed (if any) and the table it leaves behind.
  \<^item> Costs are exact numbers or \<^verbatim>\<open>float("inf")\<close>; rounding, NaN and negative infinity
    are outside the model.
\<close>

subsection \<open>Costs\<close>

datatype ecost = Finite real | Infinity

instantiation ecost :: "{plus, linorder}"
begin

fun plus_ecost :: "ecost \<Rightarrow> ecost \<Rightarrow> ecost" where
  "plus_ecost (Finite a) (Finite b) = Finite (a + b)"
| "plus_ecost Infinity _ = Infinity"
| "plus_ecost _ Infinity = Infinity"

fun less_eq_ecost :: "ecost \<Rightarrow> ecost \<Rightarrow> bool" where
  "less_eq_ecost _ Infinity = True"
| "less_eq_ecost Infinity (Finite _) = False"
| "less_eq_ecost (Finite a) (Finite b) = (a \<le> b)"

fun less_ecost :: "ecost \<Rightarrow> ecost \<Rightarrow> bool" where
  "less_ecost Infinity _ = False"
| "less_ecost (Finite _) Infinity = True"
| "less_ecost (Finite a) (Finite b) = (a < b)"

instance
proof
  fix x y z :: ecost
  show "(x < y) = (x \<le> y \<and> \<not> y \<le> x)"
    by (cases x; cases y) auto
  show "x \<le> x"
    by (cases x) auto
  show "x \<le> y \<Longrightarrow> y \<le> z \<Longrightarrow> x \<le> z"
    by (cases x; cases y; cases z) auto
  show "x \<le> y \<Longrightarrow> y \<le> x \<Longrightarrow> x = y"
    by (cases x; cases y) auto
  show "x \<le> y \<or> y \<le> x"
    by (cases x; cases y) auto
qed

end

subsection \<open>Timers, routing entries and the table\<close>

type_synonym addr = string

text \<open>\<^verbatim>\<open>threading.Timer\<close>: created, started or cancelled.\<close>

datatype countdown_state = Created | Running | Cancelled

text \<open>The only callback a timer is ever created with is \<^verbatim>\<open>linkdown\<close>.\<close>

datatype callback = LinkdownCallback

record resettable_timer =
  interval :: real
  func :: callback
  args :: addr
  countdown :: countdown_state

definition create_timer :: "real \<Rightarrow> callback \<Rightarrow> addr \<Rightarrow> resettable_timer" where
  "create_timer i f a = \<lparr>interval = i, func = f, args = a, countdown = Created\<rparr>"

definition start :: "resettable_timer \<Rightarrow> resettable_timer" where
  "start t = t\<lparr>countdown := Running\<rparr>"

definition cancel :: "resettable_timer \<Rightarrow> resettable_timer" where
  "cancel t = t\<lparr>countdown := Cancelled\<rparr>"

text \<open>\<^verbatim>\<open>reset\<close>: cancel the countdown, create a new one with the same interval, start it.\<close>

definition reset :: "resettable_timer \<Rightarrow> resettable_timer" where
  "reset t = start (create_timer (interval (cancel t)) (func (cancel t)) (args (cancel t)))"

text \<open>
  A routing entry is a Python dictionary with the keys \<^verbatim>\<open>cost\<close>, \<^verbatim>\<open>is_neighbor\<close> and
  \<^verbatim>\<open>route\<close> always present and the keys \<^verbatim>\<open>direct\<close>, \<^verbatim>\<open>costs\<close>, \<^verbatim>\<open>saved\<close> and
  \<^verbatim>\<open>silence_monitor\<close> present or not: \<open>None\<close> is an absent key.
\<close>

record node =
  cost :: ecost
  is_neighbor :: bool
  route :: addr
  direct :: "ecost option"
  costs :: "(addr \<times> ecost) list option"
  saved :: "ecost option"
  silence_monitor :: "resettable_timer option"

type_synonym store = "(addr \<times> node) list"

datatype exn = KeyError

text \<open>The messages the link commands print before they return without effect.\<close>

datatype report =
    NodeNotInNetwork
  | NotNeighborCantChange
  | MinimumLinkCost
  | LinkCurrentlyDown
  | NotNeighborCantTakeDown
  | WasntPreviousNeighbor

type_synonym outcome = "exn + report option \<times> store"

definition default_node :: node where
  "default_node = \<lparr>cost = Infinity, is_neighbor = False, route = [],
     direct = None, costs = None, saved = None, silence_monitor = None\<rparr>"

text \<open>
  \<^verbatim>\<open>create_node\<close>. Its default for \<^verbatim>\<open>costs\<close>, a \<^verbatim>\<open>defaultdict\<close> that answers +infinity, is
  the empty vector here: the program only asks it whether a key is \<^verbatim>\<open>in\<close> it, and no
  key is. The argument \<^verbatim>\<open>addr\<close> is always given where the function is called.
\<close>

definition create_node ::
  "real \<Rightarrow> ecost \<Rightarrow> bool \<Rightarrow> ecost option \<Rightarrow> (addr \<times> ecost) list option \<Rightarrow> addr \<Rightarrow> node" where
  "create_node timeout c isn d cs a =
     (let node = default_node\<lparr>cost := c, is_neighbor := isn,
            direct := Some (case d of Some x \<Rightarrow> x | None \<Rightarrow> Infinity),
            costs := Some (case cs of Some x \<Rightarrow> x | None \<Rightarrow> [])\<rparr>
      in if isn
         then node\<lparr>route := a,
                silence_monitor := Some (start (create_timer (3 * timeout) LinkdownCallback a))\<rparr>
         else node)"

text \<open>
  Modelled from the spec: the declaration of the table \<^verbatim>\<open>nodes\<close> is not in the source
  file. The spec's Topology Store "creates a default entry on first reference", and
  \<^verbatim>\<open>update_costs\<close> and \<^verbatim>\<open>get_node\<close> read \<^verbatim>\<open>nodes[addr]\<close> for keys that may be new, so
  \<^verbatim>\<open>nodes\<close> is a \<^verbatim>\<open>defaultdict\<close> whose factory is \<^verbatim>\<open>default_node\<close>: reading a missing key
  inserts a default entry at the end and returns it.
\<close>

definition getitem :: "store \<Rightarrow> addr \<Rightarrow> node \<times> store" where
  "getitem nodes a =
     (case map_of nodes a of
        Some n \<Rightarrow> (n, nodes)
      | None \<Rightarrow> (default_node, nodes @ [(a, default_node)]))"

text \<open>Mutating the entry that \<^verbatim>\<open>nodes[a]\<close> refers to.\<close>

definition modify :: "addr \<Rightarrow> (node \<Rightarrow> node) \<Rightarrow> store \<Rightarrow> store" where
  "modify a f nodes = map (\<lambda>(k, n). if k = a then (k, f n) else (k, n)) nodes"

text \<open>
  Modelled from the spec: \<^verbatim>\<open>get_neighbors\<close> and \<^verbatim>\<open>in_network\<close> are not in the source
  file. The spec's \<^verbatim>\<open>neighbors()\<close> is the "subset with isNeighbor=true", and an unknown
  node is "an address never seen", one with no entry in the table.
\<close>

definition get_neighbors :: "store \<Rightarrow> store" where
  "get_neighbors nodes = filter (\<lambda>(a, n). is_neighbor n) nodes"

definition in_network :: "addr \<Rightarrow> store \<Rightarrow> bool" where
  "in_network a nodes = (map_of nodes a \<noteq> None)"

subsection \<open>The Bellman-Ford pass\<close>

text \<open>The inner loop of \<^verbatim>\<open>estimate_costs\<close> over the neighbours, for one destination.\<close>

fun scan_neighbors :: "addr \<Rightarrow> store \<Rightarrow> ecost \<times> addr \<Rightarrow> exn + ecost \<times> addr" where
  "scan_neighbors d [] acc = Inr acc"
| "scan_neighbors d ((na, nb) # rest) (c, h) =
     (case costs nb of
        None \<Rightarrow> Inl KeyError
      | Some cs \<Rightarrow>
          (case map_of cs d of
             None \<Rightarrow> scan_neighbors d rest (c, h)
           | Some adv \<Rightarrow>
               (case direct nb of
                  None \<Rightarrow> Inl KeyError
                | Some dc \<Rightarrow>
                    (let dist = dc + adv
                     in if dist < c then scan_neighbors d rest (dist, na)
                        else scan_neighbors d rest (c, h)))))"

text \<open>The outer loop over the keys of \<^verbatim>\<open>nodes\<close>.\<close>

fun estimate_loop :: "addr \<Rightarrow> addr list \<Rightarrow> store \<Rightarrow> exn + store" where
  "estimate_loop me [] nodes = Inr nodes"
| "estimate_loop me (d # ds) nodes =
     (if d \<noteq> me
      then (case scan_neighbors d (get_neighbors nodes) (Infinity, []) of
              Inl e \<Rightarrow> Inl e
            | Inr (c, h) \<Rightarrow>
                estimate_loop me ds (modify d (\<lambda>n. n\<lparr>cost := c, route := h\<rparr>) nodes))
      else estimate_loop me ds nodes)"

definition estimate_costs :: "addr \<Rightarrow> store \<Rightarrow> exn + store" where
  "estimate_costs me nodes = estimate_loop me (map fst nodes) nodes"

text \<open>The tail of every handler that changes the table: run the pass, print nothing.\<close>

definition recomputed :: "addr \<Rightarrow> store \<Rightarrow> outcome" where
  "recomputed me nodes =
     (case estimate_costs me nodes of Inl e \<Rightarrow> Inl e | Inr nodes' \<Rightarrow> Inr (None, nodes'))"

subsection \<open>Merging an inbound vector\<close>

text \<open>\<^verbatim>\<open>for node in costs: if node not in nodes: nodes[node] = default_node()\<close>\<close>

fun ensure_nodes :: "addr list \<Rightarrow> store \<Rightarrow> store" where
  "ensure_nodes [] nodes = nodes"
| "ensure_nodes (k # ks) nodes =
     (if map_of nodes k = None then ensure_nodes ks (AList.update k default_node nodes)
      else ensure_nodes ks nodes)"

text \<open>
  The first branch of \<^verbatim>\<open>update_costs\<close>, up to the assignment of the new entry. The
  arguments of \<^verbatim>\<open>create_node\<close> are evaluated after \<^verbatim>\<open>del nodes[addr]\<close>, so
  \<^verbatim>\<open>nodes[addr]['cost']\<close> reads the table once the entry is gone.
\<close>

definition promote :: "real \<Rightarrow> addr \<Rightarrow> (addr \<times> ecost) list \<Rightarrow> ecost \<Rightarrow> store \<Rightarrow> store" where
  "promote timeout a cs d nodes =
     (let nodes1 = AList.delete a nodes;
          (old, nodes2) = getitem nodes1 a
      in AList.update a (create_node timeout (cost old) True (Some d) (Some cs) a) nodes2)"

text \<open>\<^verbatim>\<open>update_costs\<close> before its last line, the call of \<^verbatim>\<open>estimate_costs\<close>.\<close>

definition merge_vector ::
  "real \<Rightarrow> addr \<Rightarrow> (addr \<times> ecost) list \<Rightarrow> ecost \<Rightarrow> store \<Rightarrow> exn + store" where
  "merge_vector timeout a cs d nodes =
     (let nodes1 = ensure_nodes (map fst cs) nodes;
          (sender, nodes2) = getitem nodes1 a
      in if \<not> is_neighbor sender then Inr (promote timeout a cs d nodes2)
         else (case silence_monitor sender of
                 None \<Rightarrow> Inl KeyError
               | Some t \<Rightarrow>
                   Inr (modify a (\<lambda>n. n\<lparr>costs := Some cs, silence_monitor := Some (reset t)\<rparr>)
                          nodes2)))"

definition update_costs ::
  "addr \<Rightarrow> real \<Rightarrow> addr \<Rightarrow> (addr \<times> ecost) list \<Rightarrow> ecost \<Rightarrow> store \<Rightarrow> exn + store" where
  "update_costs me timeout a cs d nodes =
     (case merge_vector timeout a cs d nodes of
        Inl e \<Rightarrow> Inl e
      | Inr nodes' \<Rightarrow> estimate_costs me nodes')"

subsection \<open>The poisoned broadcast\<close>

text \<open>What one datagram carries: \<^verbatim>\<open>payload['costs']\<close> and \<^verbatim>\<open>payload['neighbor']['direct']\<close>.\<close>

record payload =
  payload_costs :: "(addr \<times> ecost) list"
  payload_direct :: ecost

text \<open>The loop over \<^verbatim>\<open>costs.items()\<close> that poisons the copy made for one neighbour.\<close>

fun poison_loop ::
  "addr \<Rightarrow> addr \<Rightarrow> store \<Rightarrow> (addr \<times> ecost) list \<Rightarrow> (addr \<times> ecost) list \<Rightarrow> (addr \<times> ecost) list" where
  "poison_loop me nbr nodes [] poisoned = poisoned"
| "poison_loop me nbr nodes ((dest, c) # rest) poisoned =
     (if dest \<notin> set [me, nbr]
      then (if route (fst (getitem nodes dest)) = nbr
            then poison_loop me nbr nodes rest (AList.update dest Infinity poisoned)
            else poison_loop me nbr nodes rest poisoned)
      else poison_loop me nbr nodes rest poisoned)"

text \<open>The loop over the neighbours; the result lists the datagrams handed to the socket.\<close>

fun broadcast_loop ::
  "addr \<Rightarrow> store \<Rightarrow> (addr \<times> ecost) list \<Rightarrow> store \<Rightarrow> exn + (addr \<times> payload) list" where
  "broadcast_loop me nodes cs [] = Inr []"
| "broadcast_loop me nodes cs ((na, nb) # rest) =
     (let poisoned = poison_loop me na nodes cs cs
      in case direct nb of
           None \<Rightarrow> Inl KeyError
         | Some d \<Rightarrow>
             (case broadcast_loop me nodes cs rest of
                Inl e \<Rightarrow> Inl e
              | Inr sent \<Rightarrow> Inr ((na, \<lparr>payload_costs = poisoned, payload_direct = d\<rparr>) # sent)))"

definition broadcast_costs :: "addr \<Rightarrow> store \<Rightarrow> exn + (addr \<times> payload) list" where
  "broadcast_costs me nodes =
     broadcast_loop me nodes (map (\<lambda>(a, n). (a, cost n)) nodes) (get_neighbors nodes)"

subsection \<open>The link commands\<close>

definition get_node :: "addr \<Rightarrow> store \<Rightarrow> (node \<times> addr \<times> report option) \<times> store" where
  "get_node a nodes =
     (let error = (if \<not> in_network a nodes then Some NodeNotInNetwork else None);
          (n, nodes') = getitem nodes a
      in ((n, a, error), nodes'))"

definition linkchange :: "addr \<Rightarrow> addr \<Rightarrow> ecost \<Rightarrow> store \<Rightarrow> outcome" where
  "linkchange me a0 new_direct nodes =
     (case get_node a0 nodes of
        ((n, a, err), nodes1) \<Rightarrow>
          (case err of
             Some e \<Rightarrow> Inr (Some e, nodes1)
           | None \<Rightarrow>
               if \<not> is_neighbor n then Inr (Some NotNeighborCantChange, nodes1)
               else if new_direct < Finite 1 then Inr (Some MinimumLinkCost, nodes1)
               else if saved n \<noteq> None then Inr (Some LinkCurrentlyDown, nodes1)
               else recomputed me (modify a (\<lambda>m. m\<lparr>direct := Some new_direct\<rparr>) nodes1)))"

definition linkdown :: "addr \<Rightarrow> addr \<Rightarrow> store \<Rightarrow> outcome" where
  "linkdown me a0 nodes =
     (case get_node a0 nodes of
        ((n, a, err), nodes1) \<Rightarrow>
          (case err of
             Some e \<Rightarrow> Inr (Some e, nodes1)
           | None \<Rightarrow>
               if \<not> is_neighbor n then Inr (Some NotNeighborCantTakeDown, nodes1)
               else (case direct n of
                       None \<Rightarrow> Inl KeyError
                     | Some d \<Rightarrow>
                         (case silence_monitor n of
                            None \<Rightarrow> Inl KeyError
                          | Some t \<Rightarrow>
                              recomputed me
                                (modify a (\<lambda>m. m\<lparr>saved := Some d, direct := Some Infinity,
                                     is_neighbor := False, silence_monitor := Some (cancel t)\<rparr>)
                                   nodes1)))))"

definition linkup :: "addr \<Rightarrow> addr \<Rightarrow> store \<Rightarrow> outcome" where
  "linkup me a0 nodes =
     (case get_node a0 nodes of
        ((n, a, err), nodes1) \<Rightarrow>
          (case err of
             Some e \<Rightarrow> Inr (Some e, nodes1)
           | None \<Rightarrow>
               (case saved n of
                  None \<Rightarrow> Inr (Some WasntPreviousNeighbor, nodes1)
                | Some s \<Rightarrow>
                    recomputed me
                      (modify a (\<lambda>m. m\<lparr>direct := Some s, saved := None, is_neighbor := True\<rparr>)
                         nodes1))))"

text \<open>
  A countdown that runs out calls its \<^verbatim>\<open>func\<close> on its \<^verbatim>\<open>args\<close>; a timer that is not
  running never fires.
\<close>

definition expire :: "addr \<Rightarrow> resettable_timer \<Rightarrow> store \<Rightarrow> outcome" where
  "expire me t nodes =
     (if countdown t = Running
      then (case func t of LinkdownCallback \<Rightarrow> linkdown me (args t) nodes)
      else Inr (None, nodes))"

subsection \<open>Notions the properties are stated with\<close>

text \<open>
  The spec's candidate cost of a destination through a neighbour:
  \<^verbatim>\<open>neighbor.directCost + neighbor.advertisedVector.get(destination, +infinity)\<close>,
  with an absent \<^verbatim>\<open>directCost\<close> read as +infinity, as the spec's data model has it.
\<close>

definition candidate :: "addr \<Rightarrow> node \<Rightarrow> ecost" where
  "candidate d nb =
     (case direct nb of
        None \<Rightarrow> Infinity
      | Some dc \<Rightarrow>
          dc + (case costs nb of
                  None \<Rightarrow> Infinity
                | Some cs \<Rightarrow> (case map_of cs d of None \<Rightarrow> Infinity | Some c \<Rightarrow> c)))"

text \<open>Every neighbour entry holds the keys \<^verbatim>\<open>direct\<close>, \<^verbatim>\<open>costs\<close> and \<^verbatim>\<open>silence_monitor\<close>.\<close>

definition entry_complete :: "node \<Rightarrow> bool" where
  "entry_complete n =
     (is_neighbor n \<longrightarrow>
        direct n \<noteq> None \<and> costs n \<noteq> None \<and> silence_monitor n \<noteq> None)"

definition neighbors_complete :: "store \<Rightarrow> bool" where
  "neighbors_complete nodes = list_all (\<lambda>(a, n). entry_complete n) nodes"

text \<open>
  A well-formed entry: a neighbour entry is complete; an entry with a saved direct cost
  is not a neighbour and still holds its vector and its timer; and an entry that is or
  has been a neighbour has a key that is not the empty string. A well-formed table is a
  dictionary (its keys are distinct) of well-formed entries.
\<close>

definition entry_wf :: "addr \<times> node \<Rightarrow> bool" where
  "entry_wf = (\<lambda>(a, n).
     entry_complete n
     \<and> (saved n \<noteq> None \<longrightarrow>
          \<not> is_neighbor n \<and> costs n \<noteq> None \<and> silence_monitor n \<noteq> None)
     \<and> (is_neighbor n \<or> saved n \<noteq> None \<longrightarrow> a \<noteq> []))"

definition table_wf :: "store \<Rightarrow> bool" where
  "table_wf nodes = (distinct (map fst nodes) \<and> list_all entry_wf nodes)"

text \<open>An entry other than the one of \<open>me\<close> has a route exactly when its cost is finite.\<close>

definition routes_consistent :: "addr \<Rightarrow> store \<Rightarrow> bool" where
  "routes_consistent me nodes =
     list_all (\<lambda>(a, n). a \<noteq> me \<longrightarrow> (route n \<noteq> [] \<longleftrightarrow> cost n \<noteq> Infinity)) nodes"

text \<open>The spec's error taxonomy, and the class of each message of the link commands.\<close>

datatype error_kind = InvalidTransition | InvalidArgument | UnknownNode

fun kind :: "report \<Rightarrow> error_kind" where
  "kind NodeNotInNetwork = UnknownNode"
| "kind NotNeighborCantChange = InvalidTransition"
| "kind MinimumLinkCost = InvalidArgument"
| "kind LinkCurrentlyDown = InvalidTransition"
| "kind NotNeighborCantTakeDown = InvalidTransition"
| "kind WasntPreviousNeighbor = InvalidTransition"

text \<open>
  The tables a node can be in: it starts from default entries, and every completed
  operation (one that returned) leads from a table to the next. A broadcast leaves
  the table as it is, and a silence expiry is a \<^verbatim>\<open>linkdown\<close>. The sender of a datagram
  has a key of the form \<^verbatim>\<open>host:port\<close>, which is not the empty string.
\<close>

inductive reachable :: "addr \<Rightarrow> real \<Rightarrow> store \<Rightarrow> bool" for me :: addr and timeout :: real where
  initial: "distinct (map fst nodes) \<Longrightarrow> list_all (\<lambda>(a, n). n = default_node) nodes
      \<Longrightarrow> reachable me timeout nodes"
| merged: "reachable me timeout nodes \<Longrightarrow> a \<noteq> []
      \<Longrightarrow> update_costs me timeout a cs d nodes = Inr nodes'
      \<Longrightarrow> reachable me timeout nodes'"
| taken_down: "reachable me timeout nodes \<Longrightarrow> linkdown me a nodes = Inr (r, nodes')
      \<Longrightarrow> reachable me timeout nodes'"
| brought_up: "reachable me timeout nodes \<Longrightarrow> linkup me a nodes = Inr (r, nodes')
      \<Longrightarrow> reachable me timeout nodes'"
| changed: "reachable me timeout nodes \<Longrightarrow> linkchange me a c nodes = Inr (r, nodes')
      \<Longrightarrow> reachable me timeout nodes'"

text \<open>
  What the pass makes of one entry, and when the scans of a list of destinations all
  return: the closed form the loop is compared with.
\<close>

definition relaxed :: "addr \<Rightarrow> store \<Rightarrow> addr \<times> node \<Rightarrow> addr \<times> node" where
  "relaxed me nodes = (\<lambda>(a, n).
     if a \<noteq> me
     then (case scan_neighbors a (get_neighbors nodes) (Infinity, []) of
             Inr (c, h) \<Rightarrow> (a, n\<lparr>cost := c, route := h\<rparr>)
           | Inl e \<Rightarrow> (a, n))
     else (a, n))"

definition scans_return :: "addr \<Rightarrow> store \<Rightarrow> addr list \<Rightarrow> bool" where
  "scans_return me nodes ds =
     list_all (\<lambda>d. d \<noteq> me \<longrightarrow>
        (case scan_neighbors d (get_neighbors nodes) (Infinity, []) of
           Inr r \<Rightarrow> True | Inl e \<Rightarrow> False)) ds"

text \<open>
  What the spec asks of one recomputed entry \<open>n'\<close> for destination \<open>d\<close>, given the
  old entry \<open>n\<close> and the neighbour entries: only \<^verbatim>\<open>cost\<close> and \<^verbatim>\<open>route\<close> change; the cost
  is at most every candidate; if no neighbour offers a finite path then the pair is
  (+infinity, empty), otherwise the route is a neighbour whose candidate is the cost.
\<close>

definition recomputed_entry :: "store \<Rightarrow> addr \<Rightarrow> node \<Rightarrow> node \<Rightarrow> bool" where
  "recomputed_entry nbrs d n n' =
     (n' = n\<lparr>cost := cost n', route := route n'\<rparr>
      \<and> (\<forall>(a, nb) \<in> set nbrs. cost n' \<le> candidate d nb)
      \<and> (if \<forall>(a, nb) \<in> set nbrs. candidate d nb = Infinity
         then cost n' = Infinity \<and> route n' = []
         else \<exists>(a, nb) \<in> set nbrs. a = route n' \<and> candidate d nb = cost n'))"

text \<open>
  The spec's example scenario: node A is this node, its neighbour B has direct cost 1
  and has advertised \<^verbatim>\<open>{A: 1, C: 5}\<close>; C is known and not a neighbour.
\<close>

definition example_B :: node where
  "example_B = \<lparr>cost = Finite 1, is_neighbor = True, route = ''B'',
     direct = Some (Finite 1), costs = Some [(''A'', Finite 1), (''C'', Finite 5)],
     saved = None,
     silence_monitor = Some \<lparr>interval = 3, func = LinkdownCallback, args = ''B'',
       countdown = Running\<rparr>\<rparr>"

definition example_nodes :: store where
  "example_nodes =
     [(''A'', default_node\<lparr>cost := Finite 0\<rparr>), (''B'', example_B), (''C'', default_node)]"

text \<open>The example table after one pass: C is reached through B at cost 1 + 5.\<close>

definition example_routed :: store where
  "example_routed =
     [(''A'', default_node\<lparr>cost := Finite 0\<rparr>),
      (''B'', example_B\<lparr>cost := Infinity, route := []\<rparr>),
      (''C'', default_node\<lparr>cost := Finite 6, route := ''B''\<rparr>)]"

text \<open>The table after \<^verbatim>\<open>linkdown\<close> on B in the routed example: no neighbour is left.\<close>

definition example_down :: store where
  "example_down =
     [(''A'', default_node\<lparr>cost := Finite 0\<rparr>),
      (''B'', example_B\<lparr>cost := Infinity, route := [], is_neighbor := False,
          direct := Some Infinity, saved := Some (Finite 1),
          silence_monitor := Some \<lparr>interval = 3, func = LinkdownCallback, args = ''B'',
            countdown = Cancelled\<rparr>\<rparr>),
      (''C'', default_node)]"

section \<open>Properties\<close>

subsection \<open>The pass in closed form\<close>

text \<open>Changing \<^verbatim>\<open>cost\<close> and \<^verbatim>\<open>route\<close> of an entry is invisible to the inner loop.\<close>

lemma map_of_modify: "map_of (modify a f s) k = (if k = a then map_option f (map_of s k) else map_of s k)"
  by (induction s) (auto simp: modify_def)

lemma keys_modify: "map fst (modify a f s) = map fst s"
  by (induction s) (auto simp: modify_def)

lemma get_neighbors_modify:
  assumes "\<And>n. is_neighbor (f n) = is_neighbor n"
  shows "get_neighbors (modify a f s) = modify a f (get_neighbors s)"
proof -
  let ?g = "\<lambda>(k, n). if k = a then (k, f n) else (k, n)"
  let ?P = "\<lambda>(a::addr, n). is_neighbor n"
  have "filter (?P \<circ> ?g) s = filter ?P s"
    by (rule filter_cong [OF refl]) (auto simp: assms split: if_splits)
  then show ?thesis
    unfolding get_neighbors_def modify_def filter_map by simp
qed

lemma scan_modify:
  assumes "\<And>n. direct (f n) = direct n" and "\<And>n. costs (f n) = costs n"
  shows "scan_neighbors d (modify a f l) acc = scan_neighbors d l acc"
proof (induction l arbitrary: acc)
  case Nil
  then show ?case by (simp add: modify_def)
next
  case (Cons p l)
  obtain na nb where p: "p = (na, nb)" by (cases p)
  obtain c h where acc: "acc = (c, h)" by (cases acc)
  have m: "modify a f ((na, nb) # l) = (na, if na = a then f nb else nb) # modify a f l"
    by (simp add: modify_def)
  show ?case
    unfolding p acc m by (simp add: assms Cons.IH Let_def split: option.splits)
qed

lemma scan_set_cost_route:
  "scan_neighbors d (get_neighbors (modify a (\<lambda>n. n\<lparr>cost := c, route := h\<rparr>) s)) acc
   = scan_neighbors d (get_neighbors s) acc"
  by (simp add: get_neighbors_modify scan_modify)

lemma relaxed_modify:
  "relaxed me (modify a (\<lambda>n. n\<lparr>cost := c, route := h\<rparr>) s) = relaxed me s"
  by (rule ext) (simp add: relaxed_def scan_set_cost_route split: prod.splits)

lemma scans_return_modify:
  "scans_return me (modify a (\<lambda>n. n\<lparr>cost := c, route := h\<rparr>) s) ds = scans_return me s ds"
  by (simp add: scans_return_def scan_set_cost_route)

lemma exn_is_KeyError: "(e::exn) = KeyError"
  by (cases e) simp

lemma estimate_loop_closed:
  "estimate_loop me ds s =
     (if scans_return me s ds
      then Inr (map (\<lambda>(a, n). if a \<in> set ds then relaxed me s (a, n) else (a, n)) s)
      else Inl KeyError)"
proof (induction ds arbitrary: s)
  case Nil
  then show ?case by (simp add: scans_return_def)
next
  case (Cons d ds)
  show ?case
  proof (cases "d = me")
    case True
    have "relaxed me s (me, n) = (me, n)" for n by (simp add: relaxed_def)
    then have "(\<lambda>(a, n). if a \<in> set (d # ds) then relaxed me s (a, n) else (a, n))
             = (\<lambda>(a, n). if a \<in> set ds then relaxed me s (a, n) else (a, n))"
      using True by (auto simp: fun_eq_iff)
    then show ?thesis using True Cons.IH [of s] by (simp add: scans_return_def)
  next
    case False
    show ?thesis
    proof (cases "scan_neighbors d (get_neighbors s) (Infinity, [])")
      case (Inl e)
      then show ?thesis using False by (simp add: scans_return_def exn_is_KeyError [of e])
    next
      case (Inr r)
      obtain c h where r: "r = (c, h)" by (cases r)
      let ?s1 = "modify d (\<lambda>n. n\<lparr>cost := c, route := h\<rparr>) s"
      have step: "estimate_loop me (d # ds) s = estimate_loop me ds ?s1"
        using False Inr r by simp
      have ok: "scans_return me s (d # ds) = scans_return me s ds"
        using Inr by (simp add: scans_return_def)
      have rel: "relaxed me s (d, n) = (d, n\<lparr>cost := c, route := h\<rparr>)" for n
        using False Inr r by (simp add: relaxed_def)
      have maps: "map (\<lambda>(a, n). if a \<in> set ds then relaxed me s (a, n) else (a, n)) ?s1
            = map (\<lambda>(a, n). if a \<in> set (d # ds) then relaxed me s (a, n) else (a, n)) s"
        unfolding modify_def map_map
      proof (rule map_cong [OF refl])
        fix x assume "x \<in> set s"
        obtain a n where x: "x = (a, n)" by (cases x)
        show "((\<lambda>(a, n). if a \<in> set ds then relaxed me s (a, n) else (a, n)) \<circ>
                (\<lambda>(k, n). if k = d then (k, n\<lparr>cost := c, route := h\<rparr>) else (k, n))) x
              = (\<lambda>(a, n). if a \<in> set (d # ds) then relaxed me s (a, n) else (a, n)) x"
          by (simp add: x rel)
      qed
      show ?thesis
        unfolding step Cons.IH [of ?s1] scans_return_modify relaxed_modify ok maps ..
    qed
  qed
qed

lemma estimate_costs_closed:
  "estimate_costs me s =
     (if scans_return me s (map fst s) then Inr (map (relaxed me s) s) else Inl KeyError)"
proof -
  have "map (\<lambda>(a, n). if a \<in> set (map fst s) then relaxed me s (a, n) else (a, n)) s
        = map (relaxed me s) s"
    by (rule map_cong [OF refl]) force
  then show ?thesis by (simp add: estimate_costs_def estimate_loop_closed)
qed

subsection \<open>The inner loop finds the least candidate\<close>

lemma plus_Infinity_right [simp]: "x + Infinity = Infinity"
  by (cases x) simp_all

lemma le_Infinity [simp]: "x \<le> Infinity"
  by (cases x) simp_all

lemma Infinity_le [simp]: "Infinity \<le> x \<longleftrightarrow> x = Infinity"
  by (cases x) simp_all

lemma not_less_Infinity [simp]: "\<not> Infinity < x"
  by (cases x) simp_all

lemma less_Infinity: "x < Infinity \<longleftrightarrow> x \<noteq> Infinity"
  by (cases x) simp_all

text \<open>One step of the inner loop, in terms of the candidate cost.\<close>

lemma scan_step:
  assumes "direct nb \<noteq> None" and "costs nb \<noteq> None"
  shows "scan_neighbors d ((na, nb) # rest) (c, h) =
           (if candidate d nb < c then scan_neighbors d rest (candidate d nb, na)
            else scan_neighbors d rest (c, h))"
  using assms by (auto simp: candidate_def Let_def split: option.splits)

lemma scan_minimum:
  assumes "list_all (\<lambda>(a, n). direct n \<noteq> None \<and> costs n \<noteq> None) nbrs"
  shows "\<exists>c' h'. scan_neighbors d nbrs (c, h) = Inr (c', h') \<and> c' \<le> c
            \<and> (\<forall>(a, nb) \<in> set nbrs. c' \<le> candidate d nb)
            \<and> ((c', h') = (c, h) \<or> (c' < c \<and> (\<exists>nb. (h', nb) \<in> set nbrs \<and> candidate d nb = c')))"
  using assms
proof (induction nbrs arbitrary: c h)
  case Nil
  then show ?case by simp
next
  case (Cons p rest)
  obtain na nb where p: "p = (na, nb)" by (cases p)
  from Cons.prems have here: "direct nb \<noteq> None" "costs nb \<noteq> None"
    and tl: "list_all (\<lambda>(a, n). direct n \<noteq> None \<and> costs n \<noteq> None) rest"
    by (simp_all add: p)
  show ?case
  proof (cases "candidate d nb < c")
    case True
    from Cons.IH [OF tl, of "candidate d nb" na]
    obtain c' h' where r: "scan_neighbors d rest (candidate d nb, na) = Inr (c', h')"
      and le: "c' \<le> candidate d nb"
      and all: "\<forall>(a, nb) \<in> set rest. c' \<le> candidate d nb"
      and att: "(c', h') = (candidate d nb, na)
                \<or> (c' < candidate d nb \<and> (\<exists>nb. (h', nb) \<in> set rest \<and> candidate d nb = c'))"
      by blast
    have "scan_neighbors d (p # rest) (c, h) = Inr (c', h')"
      using True r by (simp only: p scan_step [OF here] if_True)
    moreover have "c' < c" using le True by simp
    moreover have "\<forall>(a, nb) \<in> set (p # rest). c' \<le> candidate d nb"
      using all le by (simp add: p)
    moreover have "\<exists>nb. (h', nb) \<in> set (p # rest) \<and> candidate d nb = c'"
      using att by (auto simp: p)
    ultimately show ?thesis by auto
  next
    case False
    from Cons.IH [OF tl, of c h]
    obtain c' h' where r: "scan_neighbors d rest (c, h) = Inr (c', h')"
      and le: "c' \<le> c"
      and all: "\<forall>(a, nb) \<in> set rest. c' \<le> candidate d nb"
      and att: "(c', h') = (c, h)
                \<or> (c' < c \<and> (\<exists>nb. (h', nb) \<in> set rest \<and> candidate d nb = c'))"
      by blast
    have "scan_neighbors d (p # rest) (c, h) = Inr (c', h')"
      using False r by (simp only: p scan_step [OF here] if_False)
    moreover have "\<forall>(a, nb) \<in> set (p # rest). c' \<le> candidate d nb"
      using all le False by (auto simp: p)
    moreover have "(c', h') = (c, h)
        \<or> (c' < c \<and> (\<exists>nb. (h', nb) \<in> set (p # rest) \<and> candidate d nb = c'))"
      using att by (auto simp: p)
    ultimately show ?thesis using le by auto
  qed
qed

lemma complete_neighbors:
  "neighbors_complete s \<Longrightarrow>
     list_all (\<lambda>(a, n). direct n \<noteq> None \<and> costs n \<noteq> None) (get_neighbors s)"
  by (auto simp: neighbors_complete_def entry_complete_def get_neighbors_def list_all_iff)

lemma complete_scans_return: "neighbors_complete s \<Longrightarrow> scans_return me s ds"
proof -
  assume c: "neighbors_complete s"
  have "\<exists>r. scan_neighbors d (get_neighbors s) (Infinity, []) = Inr r" for d
    using scan_minimum [OF complete_neighbors [OF c], of d Infinity "[]"] by blast
  then have "(case scan_neighbors d (get_neighbors s) (Infinity, []) of
                 Inr r \<Rightarrow> True | Inl e \<Rightarrow> False)" for d
    by (metis sum.case(2))
  then show ?thesis
    by (simp add: scans_return_def list_all_iff)
qed

lemma estimate_costs_complete:
  "neighbors_complete s \<Longrightarrow> estimate_costs me s = Inr (map (relaxed me s) s)"
  by (simp add: estimate_costs_closed complete_scans_return)

lemma relaxed_entry:
  assumes c: "neighbors_complete s" and d: "d \<noteq> me"
  shows "\<exists>n'. relaxed me s (d, n) = (d, n') \<and> recomputed_entry (get_neighbors s) d n n'"
proof -
  from scan_minimum [OF complete_neighbors [OF c], of d Infinity "[]"]
  obtain c' h' where r: "scan_neighbors d (get_neighbors s) (Infinity, []) = Inr (c', h')"
    and all: "\<forall>(a, nb) \<in> set (get_neighbors s). c' \<le> candidate d nb"
    and att: "(c', h') = (Infinity, [])
       \<or> (c' < Infinity \<and> (\<exists>nb. (h', nb) \<in> set (get_neighbors s) \<and> candidate d nb = c'))"
    by blast
  let ?n' = "n\<lparr>cost := c', route := h'\<rparr>"
  have rel: "relaxed me s (d, n) = (d, ?n')"
    using d r by (simp add: relaxed_def)
  have fields: "?n' = n\<lparr>cost := cost ?n', route := route ?n'\<rparr>" by simp
  have least: "\<forall>(a, nb) \<in> set (get_neighbors s). cost ?n' \<le> candidate d nb"
    using all by simp
  have choice: "if \<forall>(a, nb) \<in> set (get_neighbors s). candidate d nb = Infinity
         then cost ?n' = Infinity \<and> route ?n' = []
         else \<exists>(a, nb) \<in> set (get_neighbors s). a = route ?n' \<and> candidate d nb = cost ?n'"
  proof (cases "\<forall>(a, nb) \<in> set (get_neighbors s). candidate d nb = Infinity")
    case True
    have "\<not> (c' < Infinity \<and> (\<exists>nb. (h', nb) \<in> set (get_neighbors s) \<and> candidate d nb = c'))"
      using True by (auto simp: less_Infinity)
    with att have "(c', h') = (Infinity, [])" by blast
    then have "cost ?n' = Infinity \<and> route ?n' = []" by simp
    then show ?thesis unfolding if_P [OF True] .
  next
    case False
    then obtain a nb where "(a, nb) \<in> set (get_neighbors s)" "candidate d nb \<noteq> Infinity"
      by auto
    with all have "c' \<noteq> Infinity" by (cases c') auto
    with att obtain nb' where "(h', nb') \<in> set (get_neighbors s)" "candidate d nb' = c'"
      by auto
    then have "\<exists>(a, nb) \<in> set (get_neighbors s). a = route ?n' \<and> candidate d nb = cost ?n'"
      by force
    then show ?thesis unfolding if_not_P [OF False] .
  qed
  have "recomputed_entry (get_neighbors s) d n ?n'"
    unfolding recomputed_entry_def using fields least choice by blast
  with rel show ?thesis by blast
qed

lemma relaxed_self: "relaxed me s (me, n) = (me, n)"
  by (simp add: relaxed_def)

text \<open>
  C1: when every neighbour entry is complete, one pass returns; it leaves the keys and
  their order alone; every entry other than the one of \<open>me\<close> keeps all its fields but
  \<^verbatim>\<open>cost\<close> and \<^verbatim>\<open>route\<close>, its new cost is the least candidate (direct cost plus
  advertised cost, an absent destination counting as +infinity) over the current
  neighbours, its new route is a neighbour that attains it, and the pair is
  (+infinity, empty) when no neighbour offers a finite path; the entry of \<open>me\<close> is
  left as it was.
\<close>

theorem estimate_costs_minimum:
  assumes "neighbors_complete nodes"
  shows "\<exists>nodes'. estimate_costs me nodes = Inr nodes'
           \<and> list_all2 (\<lambda>(d, n) (d', n'). d' = d \<and>
                 (if d = me then n' = n else recomputed_entry (get_neighbors nodes) d n n'))
               nodes nodes'"
proof -
  have "list_all2 (\<lambda>(d, n) (d', n'). d' = d \<and>
                 (if d = me then n' = n else recomputed_entry (get_neighbors nodes) d n n'))
               nodes (map (relaxed me nodes) nodes)"
    unfolding list_all2_map2
  proof (rule list_all2_same [THEN iffD2], rule ballI)
    fix x assume "x \<in> set nodes"
    obtain d n where x: "x = (d, n)" by (cases x)
    show "(case x of (d, n) \<Rightarrow> \<lambda>(d', n'). d' = d \<and>
                 (if d = me then n' = n else recomputed_entry (get_neighbors nodes) d n n'))
            (relaxed me nodes x)"
    proof (cases "d = me")
      case True
      then show ?thesis by (simp add: x relaxed_self)
    next
      case False
      from relaxed_entry [OF assms False, of n] obtain n'
        where "relaxed me nodes (d, n) = (d, n')"
          and "recomputed_entry (get_neighbors nodes) d n n'" by blast
      with False show ?thesis by (simp add: x)
    qed
  qed
  then show ?thesis
    using estimate_costs_complete [OF assms, of me] by simp
qed

theorem estimate_costs_minimum_witness:
  "neighbors_complete example_nodes
   \<and> (\<exists>nodes'. estimate_costs ''A'' example_nodes = Inr nodes'
           \<and> list_all2 (\<lambda>(d, n) (d', n'). d' = d \<and>
                 (if d = ''A'' then n' = n
                  else recomputed_entry (get_neighbors example_nodes) d n n'))
               example_nodes nodes')"
proof -
  have c: "neighbors_complete example_nodes"
    by (simp add: neighbors_complete_def entry_complete_def example_nodes_def example_B_def default_node_def)
  show ?thesis
    using c estimate_costs_minimum [OF c, of "''A''"] by simp
qed

subsection \<open>Running the pass twice\<close>

lemma relaxed_shape: "\<exists>c h. relaxed me s (a, n) = (a, n\<lparr>cost := c, route := h\<rparr>)"
proof (cases "a \<noteq> me")
  case True
  show ?thesis
  proof (cases "scan_neighbors a (get_neighbors s) (Infinity, [])")
    case (Inl e)
    then have "relaxed me s (a, n) = (a, n\<lparr>cost := cost n, route := route n\<rparr>)"
      using True by (simp add: relaxed_def)
    then show ?thesis by blast
  next
    case (Inr r)
    then have "relaxed me s (a, n) = (a, n\<lparr>cost := fst r, route := snd r\<rparr>)"
      using True by (simp add: relaxed_def split: prod.splits)
    then show ?thesis by blast
  qed
next
  case False
  then have "relaxed me s (a, n) = (a, n\<lparr>cost := cost n, route := route n\<rparr>)"
    by (simp add: relaxed_def)
  then show ?thesis by blast
qed

lemma keys_relaxed: "map fst (map (relaxed me s) l) = map fst l"
proof -
  have "fst (relaxed me s x) = fst x" for x
    using relaxed_shape [of me s "fst x" "snd x"] by auto
  then show ?thesis by simp
qed

lemma get_neighbors_relaxed:
  "get_neighbors (map (relaxed me s) l) = map (relaxed me s) (get_neighbors l)"
proof -
  let ?P = "\<lambda>(a::addr, n). is_neighbor n"
  have "?P (relaxed me s x) = ?P x" for x
    using relaxed_shape [of me s "fst x" "snd x"] by (cases x) auto
  then have "filter (?P \<circ> relaxed me s) l = filter ?P l"
    by (intro filter_cong [OF refl]) simp
  then show ?thesis
    unfolding get_neighbors_def filter_map by simp
qed

lemma scan_relaxed:
  "scan_neighbors d (map (relaxed me s) l) acc = scan_neighbors d l acc"
proof (induction l arbitrary: acc)
  case Nil
  then show ?case by simp
next
  case (Cons p l)
  obtain na nb where p: "p = (na, nb)" by (cases p)
  obtain c h where acc: "acc = (c, h)" by (cases acc)
  obtain c' h' where r: "relaxed me s (na, nb) = (na, nb\<lparr>cost := c', route := h'\<rparr>)"
    using relaxed_shape by blast
  show ?case
    unfolding p acc list.map r by (simp add: Cons.IH Let_def split: option.splits)
qed

lemma scan_after_pass:
  "scan_neighbors d (get_neighbors (map (relaxed me s) s)) acc
   = scan_neighbors d (get_neighbors s) acc"
  by (simp only: get_neighbors_relaxed scan_relaxed)

lemma relaxed_cong:
  assumes "\<And>d. scan_neighbors d (get_neighbors t) (Infinity, [])
               = scan_neighbors d (get_neighbors s) (Infinity, [])"
  shows "relaxed me t = relaxed me s"
  by (simp add: relaxed_def assms cong: if_cong)

lemma relaxed_after_pass: "relaxed me (map (relaxed me s) s) = relaxed me s"
  by (rule relaxed_cong) (rule scan_after_pass)

lemma scans_return_after_pass:
  "scans_return me (map (relaxed me s) s) ds = scans_return me s ds"
  unfolding scans_return_def scan_after_pass ..

lemma relaxed_twice: "relaxed me s (relaxed me s x) = relaxed me s x"
proof -
  obtain a n where x: "x = (a, n)" by (cases x)
  show ?thesis
    unfolding x by (simp add: relaxed_def split: sum.splits prod.splits)
qed

text \<open>
  C8: if one call of \<^verbatim>\<open>estimate_costs\<close> returns, a second call on the table it left
  returns too and leaves that table as it is, so no entry's cost or route changes.
\<close>

theorem estimate_costs_idempotent:
  assumes "estimate_costs me nodes = Inr nodes1"
  shows "estimate_costs me nodes1 = Inr nodes1"
proof -
  from assms have ok: "scans_return me nodes (map fst nodes)"
    and n1: "nodes1 = map (relaxed me nodes) nodes"
    by (auto simp: estimate_costs_closed split: if_splits)
  have "scans_return me nodes1 (map fst nodes1)"
    unfolding n1 keys_relaxed scans_return_after_pass by (rule ok)
  moreover have "map (relaxed me nodes1) nodes1 = nodes1"
    unfolding n1 relaxed_after_pass by (simp add: relaxed_twice)
  ultimately show ?thesis
    by (simp add: estimate_costs_closed)
qed

lemma example_pass:
  "estimate_costs ''A'' example_nodes =
     Inr [(''A'', default_node\<lparr>cost := Finite 0\<rparr>),
          (''B'', example_B\<lparr>cost := Infinity, route := []\<rparr>),
          (''C'', default_node\<lparr>cost := Finite 6, route := ''B''\<rparr>)]"
  by (simp add: estimate_costs_def example_nodes_def get_neighbors_def modify_def
      example_B_def default_node_def)

theorem estimate_costs_idempotent_witness:
  "estimate_costs ''A'' example_nodes =
     Inr [(''A'', default_node\<lparr>cost := Finite 0\<rparr>),
          (''B'', example_B\<lparr>cost := Infinity, route := []\<rparr>),
          (''C'', default_node\<lparr>cost := Finite 6, route := ''B''\<rparr>)]
   \<and> estimate_costs ''A''
         [(''A'', default_node\<lparr>cost := Finite 0\<rparr>),
          (''B'', example_B\<lparr>cost := Infinity, route := []\<rparr>),
          (''C'', default_node\<lparr>cost := Finite 6, route := ''B''\<rparr>)] =
     Inr [(''A'', default_node\<lparr>cost := Finite 0\<rparr>),
          (''B'', example_B\<lparr>cost := Infinity, route := []\<rparr>),
          (''C'', default_node\<lparr>cost := Finite 6, route := ''B''\<rparr>)]"
  using example_pass estimate_costs_idempotent [OF example_pass] by simp

subsection \<open>The vector a broadcast builds\<close>

lemma poison_loop_keys:
  "fst ` set cs \<subseteq> fst ` set p \<Longrightarrow> map fst (poison_loop me nbr nodes cs p) = map fst p"
proof (induction cs arbitrary: p)
  case Nil
  then show ?case by simp
next
  case (Cons x cs)
  obtain dest c where x: "x = (dest, c)" by (cases x)
  from Cons.prems have here: "dest \<in> fst ` set p" and tl: "fst ` set cs \<subseteq> fst ` set p"
    by (auto simp: x)
  have upd: "map fst (AList.update dest Infinity p) = map fst p"
    using here by (simp add: update_keys)
  have tl': "fst ` set cs \<subseteq> fst ` set (AList.update dest Infinity p)"
    using tl by (auto simp: dom_update)
  show ?case
    unfolding x using Cons.IH [OF tl] Cons.IH [OF tl'] upd by simp
qed

lemma poison_loop_map_of:
  "map_of (poison_loop me nbr nodes cs p) D =
     (if D \<in> fst ` set cs \<and> D \<noteq> me \<and> D \<noteq> nbr \<and> route (fst (getitem nodes D)) = nbr
      then Some Infinity else map_of p D)"
proof (induction cs arbitrary: p)
  case Nil
  then show ?case by simp
next
  case (Cons x cs)
  obtain dest c where x: "x = (dest, c)" by (cases x)
  have step: "poison_loop me nbr nodes ((dest, c) # cs) p =
      poison_loop me nbr nodes cs
        (if dest \<noteq> me \<and> dest \<noteq> nbr \<and> route (fst (getitem nodes dest)) = nbr
         then AList.update dest Infinity p else p)"
    by simp
  show ?case
    unfolding x step Cons.IH by (auto simp: update_conv')
qed

lemma getitem_present: "map_of nodes a = Some n \<Longrightarrow> getitem nodes a = (n, nodes)"
  by (simp add: getitem_def)

lemma getitem_absent:
  "map_of nodes a = None \<Longrightarrow> getitem nodes a = (default_node, nodes @ [(a, default_node)])"
  by (simp add: getitem_def)

lemma map_of_cost_table:
  "map_of (map (\<lambda>(a, n). (a, cost n)) nodes) D = map_option cost (map_of nodes D)"
  by (induction nodes) auto

lemma keys_cost_table: "map fst (map (\<lambda>(a, n). (a, cost n)) nodes) = map fst nodes"
  by (induction nodes) auto

text \<open>What the copy made for neighbour \<open>N\<close> holds, entry by entry.\<close>

lemma poisoned_copy:
  assumes "distinct (map fst nodes)"
  defines "cs \<equiv> map (\<lambda>(a, n). (a, cost n)) nodes"
  shows "map fst (poison_loop me N nodes cs cs) = map fst nodes"
    and "(D, n) \<in> set nodes \<Longrightarrow>
           map_of (poison_loop me N nodes cs cs) D =
             Some (if D \<noteq> me \<and> D \<noteq> N \<and> route n = N then Infinity else cost n)"
proof -
  show "map fst (poison_loop me N nodes cs cs) = map fst nodes"
    unfolding poison_loop_keys [OF subset_refl] cs_def by (rule keys_cost_table)
  assume "(D, n) \<in> set nodes"
  with assms(1) have m: "map_of nodes D = Some n" by simp
  have k: "D \<in> fst ` set cs"
    using \<open>(D, n) \<in> set nodes\<close> by (force simp: cs_def)
  have c: "map_of cs D = Some (cost n)"
    by (simp add: cs_def map_of_cost_table m)
  show "map_of (poison_loop me N nodes cs cs) D =
             Some (if D \<noteq> me \<and> D \<noteq> N \<and> route n = N then Infinity else cost n)"
    unfolding poison_loop_map_of by (simp add: k c getitem_present [OF m])
qed

lemma broadcast_loop_sent:
  assumes "list_all (\<lambda>(a, n). direct n \<noteq> None) nbrs"
  shows "\<exists>sent. broadcast_loop me nodes cs nbrs = Inr sent
           \<and> list_all2 (\<lambda>(N, nb) (to, p). to = N \<and> direct nb = Some (payload_direct p)
                 \<and> payload_costs p = poison_loop me N nodes cs cs) nbrs sent"
  using assms
proof (induction nbrs)
  case Nil
  then show ?case by simp
next
  case (Cons x nbrs)
  obtain na nb where x: "x = (na, nb)" by (cases x)
  from Cons.prems obtain d where d: "direct nb = Some d"
    and tl: "list_all (\<lambda>(a, n). direct n \<noteq> None) nbrs"
    by (auto simp: x)
  from Cons.IH [OF tl] obtain sent where s: "broadcast_loop me nodes cs nbrs = Inr sent"
    and all: "list_all2 (\<lambda>(N, nb) (to, p). to = N \<and> direct nb = Some (payload_direct p)
                 \<and> payload_costs p = poison_loop me N nodes cs cs) nbrs sent"
    by blast
  have "broadcast_loop me nodes cs (x # nbrs) =
          Inr ((na, \<lparr>payload_costs = poison_loop me na nodes cs cs, payload_direct = d\<rparr>) # sent)"
    by (simp add: x d s)
  then show ?case using all d by (simp add: x)
qed

lemma complete_neighbors_direct:
  "neighbors_complete s \<Longrightarrow> list_all (\<lambda>(a, n). direct n \<noteq> None) (get_neighbors s)"
  by (auto simp: neighbors_complete_def entry_complete_def get_neighbors_def list_all_iff)

text \<open>
  C2: a broadcast from a table with distinct keys and complete neighbour entries sends
  one datagram per current neighbour \<open>N\<close>, in order. Its vector has the keys of the
  table; a destination that is neither \<open>me\<close> nor \<open>N\<close> and whose route is \<open>N\<close> is
  advertised at +infinity, every other destination at its current cost; and the
  direct cost to \<open>N\<close> is attached as it stands in the table.
\<close>

theorem broadcast_costs_poisoned:
  assumes "neighbors_complete nodes" and "distinct (map fst nodes)"
  shows "\<exists>sent. broadcast_costs me nodes = Inr sent
           \<and> list_all2 (\<lambda>(N, nb) (to, p). to = N \<and> direct nb = Some (payload_direct p)
                 \<and> map fst (payload_costs p) = map fst nodes
                 \<and> (\<forall>(D, n) \<in> set nodes. map_of (payload_costs p) D =
                       Some (if D \<noteq> me \<and> D \<noteq> N \<and> route n = N then Infinity else cost n)))
               (get_neighbors nodes) sent"
proof -
  let ?cs = "map (\<lambda>(a, n). (a, cost n)) nodes"
  from broadcast_loop_sent [OF complete_neighbors_direct [OF assms(1)], of me nodes ?cs]
  obtain sent where s: "broadcast_loop me nodes ?cs (get_neighbors nodes) = Inr sent"
    and all: "list_all2 (\<lambda>(N, nb) (to, p). to = N \<and> direct nb = Some (payload_direct p)
                 \<and> payload_costs p = poison_loop me N nodes ?cs ?cs) (get_neighbors nodes) sent"
    by blast
  have "list_all2 (\<lambda>(N, nb) (to, p). to = N \<and> direct nb = Some (payload_direct p)
                 \<and> map fst (payload_costs p) = map fst nodes
                 \<and> (\<forall>(D, n) \<in> set nodes. map_of (payload_costs p) D =
                       Some (if D \<noteq> me \<and> D \<noteq> N \<and> route n = N then Infinity else cost n)))
               (get_neighbors nodes) sent"
    by (rule list_all2_mono [OF all]) (auto simp: poisoned_copy [OF assms(2)])
  with s show ?thesis by (simp add: broadcast_costs_def)
qed

theorem broadcast_costs_poisoned_witness:
  "neighbors_complete example_routed \<and> distinct (map fst example_routed)
   \<and> (\<exists>sent. broadcast_costs ''A'' example_routed = Inr sent
           \<and> list_all2 (\<lambda>(N, nb) (to, p). to = N \<and> direct nb = Some (payload_direct p)
                 \<and> map fst (payload_costs p) = map fst example_routed
                 \<and> (\<forall>(D, n) \<in> set example_routed. map_of (payload_costs p) D =
                       Some (if D \<noteq> ''A'' \<and> D \<noteq> N \<and> route n = N then Infinity else cost n)))
               (get_neighbors example_routed) sent)"
proof -
  have c: "neighbors_complete example_routed"
    by (simp add: neighbors_complete_def entry_complete_def example_routed_def example_B_def default_node_def)
  have d: "distinct (map fst example_routed)"
    by (simp add: example_routed_def)
  show ?thesis
    using c d broadcast_costs_poisoned [OF c d, of "''A''"] by simp
qed

lemma example_broadcast:
  "broadcast_costs ''A'' example_routed =
     Inr [(''B'', \<lparr>payload_costs = [(''A'', Finite 0), (''B'', Infinity), (''C'', Infinity)],
                  payload_direct = Finite 1\<rparr>)]"
  by (simp add: broadcast_costs_def example_routed_def get_neighbors_def getitem_def
      example_B_def default_node_def)

subsection \<open>Looking an address up\<close>

lemma get_node_known:
  "map_of nodes a = Some n \<Longrightarrow> get_node a nodes = ((n, a, None), nodes)"
  by (simp add: get_node_def in_network_def getitem_def)

lemma get_node_unknown:
  "map_of nodes a = None \<Longrightarrow>
     get_node a nodes = ((default_node, a, Some NodeNotInNetwork), nodes @ [(a, default_node)])"
  by (simp add: get_node_def in_network_def getitem_def)

text \<open>
  C6, as the code has it: a link command on an address with no entry prints the
  unknown-node message and raises nothing, and it leaves every entry as it was; but
  reading \<^verbatim>\<open>nodes[addr]\<close> in \<^verbatim>\<open>get_node\<close> has put a default entry for the address at the
  end of the table.
\<close>

theorem unknown_address_commands:
  assumes "map_of nodes a = None"
  shows "linkup me a nodes = Inr (Some NodeNotInNetwork, nodes @ [(a, default_node)])
       \<and> linkdown me a nodes = Inr (Some NodeNotInNetwork, nodes @ [(a, default_node)])
       \<and> linkchange me a c nodes = Inr (Some NodeNotInNetwork, nodes @ [(a, default_node)])
       \<and> kind NodeNotInNetwork = UnknownNode"
  by (simp add: linkup_def linkdown_def linkchange_def get_node_unknown [OF assms])

theorem unknown_address_commands_witness:
  "map_of example_nodes ''Z'' = None
   \<and> linkup ''A'' ''Z'' example_nodes =
         Inr (Some NodeNotInNetwork, example_nodes @ [(''Z'', default_node)])
   \<and> linkdown ''A'' ''Z'' example_nodes =
         Inr (Some NodeNotInNetwork, example_nodes @ [(''Z'', default_node)])
   \<and> linkchange ''A'' ''Z'' (Finite 2) example_nodes =
         Inr (Some NodeNotInNetwork, example_nodes @ [(''Z'', default_node)])
   \<and> kind NodeNotInNetwork = UnknownNode"
proof -
  have h: "map_of example_nodes ''Z'' = None"
    by (simp add: example_nodes_def)
  show ?thesis
    using h unknown_address_commands [OF h, of "''A''" "Finite 2"] by simp
qed

text \<open>
  C6 as the spec words it does not hold: Z has no entry in the example table, and
  after \<^verbatim>\<open>linkdown\<close> on Z the table is not the one before and Z has an entry.
\<close>

theorem unknown_address_counterexample:
  "\<not> in_network ''Z'' example_nodes
   \<and> linkdown ''A'' ''Z'' example_nodes =
         Inr (Some NodeNotInNetwork, example_nodes @ [(''Z'', default_node)])
   \<and> example_nodes @ [(''Z'', default_node)] \<noteq> example_nodes
   \<and> in_network ''Z'' (example_nodes @ [(''Z'', default_node)])"
  by (simp add: linkdown_def get_node_def getitem_def in_network_def example_nodes_def)

subsection \<open>Merging a vector from an address that is not a neighbour\<close>

lemma ensure_nodes_map_of:
  "map_of (ensure_nodes ks s) k =
     (case map_of s k of
        Some n \<Rightarrow> Some n
      | None \<Rightarrow> if k \<in> set ks then Some default_node else None)"
proof (induction ks arbitrary: s)
  case Nil
  then show ?case by (simp split: option.splits)
next
  case (Cons x ks)
  have step: "ensure_nodes (x # ks) s =
      ensure_nodes ks (if map_of s x = None then AList.update x default_node s else s)"
    by simp
  show ?case
    unfolding step Cons.IH by (auto simp: update_conv' split: option.splits)
qed

lemma map_of_append_absent:
  "map_of s a = None \<Longrightarrow> map_of (s @ [(a, n)]) k = (if k = a then Some n else map_of s k)"
  by (auto simp: map_add_def split: option.splits)

text \<open>
  The entry \<^verbatim>\<open>promote\<close> stores is built with the cost of a fresh default entry: the old
  entry is deleted before \<^verbatim>\<open>nodes[addr]['cost']\<close> is read.
\<close>

lemma promote_entry:
  "map_of (promote timeout a cs d nodes) k =
     (if k = a then Some (create_node timeout Infinity True (Some d) (Some cs) a)
      else map_of nodes k)"
proof -
  have gone: "map_of (AList.delete a nodes) a = None"
    by (simp add: delete_conv')
  have "promote timeout a cs d nodes =
          AList.update a (create_node timeout (cost default_node) True (Some d) (Some cs) a)
            (AList.delete a nodes @ [(a, default_node)])"
    by (simp add: promote_def getitem_absent [OF gone])
  then show ?thesis
    by (auto simp: update_conv' delete_conv' map_add_def default_node_def split: option.splits)
qed

lemma created_neighbor:
  "create_node timeout c True (Some d) (Some cs) a =
     \<lparr>cost = c, is_neighbor = True, route = a, direct = Some d, costs = Some cs, saved = None,
      silence_monitor = Some \<lparr>interval = 3 * timeout, func = LinkdownCallback, args = a,
        countdown = Running\<rparr>\<rparr>"
  by (simp add: create_node_def default_node_def start_def create_timer_def)

subsection \<open>Properties of every entry, kept by the table operations\<close>

lemma list_all_update:
  "list_all P s \<Longrightarrow> P (a, n) \<Longrightarrow> list_all P (AList.update a n s)"
  by (induction s) auto

lemma list_all_delete: "list_all P s \<Longrightarrow> list_all P (AList.delete a s)"
  by (induction s) auto

lemma list_all_ensure_nodes:
  "list_all P s \<Longrightarrow> (\<And>k. P (k, default_node)) \<Longrightarrow> list_all P (ensure_nodes ks s)"
  by (induction ks arbitrary: s) (simp_all add: list_all_update)

lemma list_all_getitem:
  "list_all P s \<Longrightarrow> P (a, default_node) \<Longrightarrow> list_all P (snd (getitem s a))"
  by (simp add: getitem_def split: option.splits)

lemma list_all_promote:
  assumes "list_all P s" and "P (a, default_node)"
    and "P (a, create_node timeout Infinity True (Some d) (Some cs) a)"
  shows "list_all P (promote timeout a cs d s)"
proof -
  have gone: "map_of (AList.delete a s) a = None"
    by (simp add: delete_conv')
  have "promote timeout a cs d s =
          AList.update a (create_node timeout Infinity True (Some d) (Some cs) a)
            (AList.delete a s @ [(a, default_node)])"
    by (simp add: promote_def getitem_absent [OF gone] default_node_def)
  moreover have "list_all P (AList.delete a s @ [(a, default_node)])"
    using assms(1,2) by (simp add: list_all_delete)
  ultimately show ?thesis
    using assms(3) by (simp add: list_all_update)
qed

lemma list_all_modify:
  assumes "list_all P s" and "\<And>n. (a, n) \<in> set s \<Longrightarrow> P (a, n) \<Longrightarrow> P (a, f n)"
  shows "list_all P (modify a f s)"
  using assms by (auto simp: modify_def list_all_iff)

lemma list_all_relaxed:
  assumes "list_all P s" and "\<And>a n c h. P (a, n) \<Longrightarrow> P (a, n\<lparr>cost := c, route := h\<rparr>)"
  shows "list_all P (map (relaxed me t) s)"
proof -
  have "P (relaxed me t x)" if "P x" for x
  proof -
    obtain a n where x: "x = (a, n)" by (cases x)
    obtain c h where "relaxed me t (a, n) = (a, n\<lparr>cost := c, route := h\<rparr>)"
      using relaxed_shape by blast
    then show ?thesis using that assms(2) by (simp add: x)
  qed
  with assms(1) show ?thesis by (simp add: list_all_iff)
qed

lemma map_of_relaxed:
  "map_of s k = Some n \<Longrightarrow>
     \<exists>c h. map_of (map (relaxed me t) s) k = Some (n\<lparr>cost := c, route := h\<rparr>)"
proof (induction s)
  case Nil
  then show ?case by simp
next
  case (Cons x s)
  obtain a m where x: "x = (a, m)" by (cases x)
  obtain c h where r: "relaxed me t (a, m) = (a, m\<lparr>cost := c, route := h\<rparr>)"
    using relaxed_shape by blast
  show ?case
  proof (cases "a = k")
    case True
    with Cons.prems have "m = n" by (simp add: x)
    then have "map_of (map (relaxed me t) (x # s)) k = Some (n\<lparr>cost := c, route := h\<rparr>)"
      unfolding x list.map r using True by simp
    then show ?thesis by blast
  next
    case False
    with Cons.prems have "map_of s k = Some n" by (simp add: x)
    from Cons.IH [OF this] obtain c' h'
      where "map_of (map (relaxed me t) s) k = Some (n\<lparr>cost := c', route := h'\<rparr>)" by blast
    then have "map_of (map (relaxed me t) (x # s)) k = Some (n\<lparr>cost := c', route := h'\<rparr>)"
      unfolding x list.map r using False by simp
    then show ?thesis by blast
  qed
qed

text \<open>A pass that returns changes nothing but \<^verbatim>\<open>cost\<close> and \<^verbatim>\<open>route\<close> of an entry.\<close>

lemma pass_entry:
  assumes "estimate_costs me s = Inr s'" and "map_of s k = Some n"
  shows "\<exists>c h. map_of s' k = Some (n\<lparr>cost := c, route := h\<rparr>)"
proof -
  from assms(1) have "s' = map (relaxed me s) s"
    by (auto simp: estimate_costs_closed split: if_splits)
  then show ?thesis using map_of_relaxed [OF assms(2)] by simp
qed

lemma complete_entry_fields: "entry_complete n \<Longrightarrow> entry_complete (n\<lparr>cost := c, route := h\<rparr>)"
  by (simp add: entry_complete_def)

lemma complete_default: "entry_complete default_node"
  by (simp add: entry_complete_def default_node_def)

lemma complete_created: "entry_complete (create_node timeout c True (Some d) (Some cs) a)"
  by (simp add: entry_complete_def created_neighbor)

lemma complete_promote:
  "neighbors_complete s \<Longrightarrow> neighbors_complete (promote timeout a cs d s)"
  unfolding neighbors_complete_def
  by (rule list_all_promote) (simp_all add: complete_default complete_created)

lemma complete_ensure_nodes:
  "neighbors_complete s \<Longrightarrow> neighbors_complete (ensure_nodes ks s)"
  unfolding neighbors_complete_def
  by (rule list_all_ensure_nodes) (simp_all add: complete_default)

lemma complete_pass:
  "neighbors_complete s \<Longrightarrow> estimate_costs me s = Inr s' \<Longrightarrow> neighbors_complete s'"
proof -
  assume c: "neighbors_complete s" and "estimate_costs me s = Inr s'"
  then have "s' = map (relaxed me s) s"
    by (auto simp: estimate_costs_closed split: if_splits)
  moreover have "neighbors_complete (map (relaxed me s) s)"
    using c unfolding neighbors_complete_def
    by (rule list_all_relaxed) (simp add: complete_entry_fields)
  ultimately show ?thesis by simp
qed

subsection \<open>An advertisement from a link that was taken down\<close>

lemma merge_vector_not_neighbor:
  assumes "map_of nodes a = Some n" and "\<not> is_neighbor n"
  shows "merge_vector timeout a cs d nodes =
           Inr (promote timeout a cs d (ensure_nodes (map fst cs) nodes))"
proof -
  have "map_of (ensure_nodes (map fst cs) nodes) a = Some n"
    by (simp add: ensure_nodes_map_of assms(1))
  then have "getitem (ensure_nodes (map fst cs) nodes) a = (n, ensure_nodes (map fst cs) nodes)"
    by (rule getitem_present)
  then show ?thesis
    using assms(2) by (simp add: merge_vector_def)
qed

text \<open>
  C10: let the table have complete neighbour entries and an entry for \<open>a\<close> that is not
  a neighbour and holds a saved direct cost (the link is down). Then \<^verbatim>\<open>update_costs\<close>
  for a vector from \<open>a\<close> returns, and in the table it leaves \<open>a\<close> is a neighbour whose
  direct cost is the one the sender claims, whose vector is the one received, whose
  timer runs, and whose saved cost is gone; a \<^verbatim>\<open>linkup\<close> on \<open>a\<close> then prints that \<open>a\<close>
  was not a previous neighbour and leaves the table as it is.
\<close>

theorem update_costs_discards_saved:
  assumes "neighbors_complete nodes" and "map_of nodes a = Some n"
    and "\<not> is_neighbor n" and "saved n = Some s"
  shows "\<exists>nodes' n'. update_costs me timeout a cs d nodes = Inr nodes'
           \<and> map_of nodes' a = Some n'
           \<and> is_neighbor n' \<and> direct n' = Some d \<and> costs n' = Some cs \<and> saved n' = None
           \<and> silence_monitor n' = Some \<lparr>interval = 3 * timeout, func = LinkdownCallback,
                 args = a, countdown = Running\<rparr>
           \<and> linkup me a nodes' = Inr (Some WasntPreviousNeighbor, nodes')"
proof -
  let ?merged = "promote timeout a cs d (ensure_nodes (map fst cs) nodes)"
  let ?new = "create_node timeout Infinity True (Some d) (Some cs) a"
  have m: "merge_vector timeout a cs d nodes = Inr ?merged"
    by (rule merge_vector_not_neighbor [OF assms(2,3)])
  have "neighbors_complete ?merged"
    by (intro complete_promote complete_ensure_nodes assms(1))
  then have p: "estimate_costs me ?merged = Inr (map (relaxed me ?merged) ?merged)"
    by (rule estimate_costs_complete)
  let ?nodes' = "map (relaxed me ?merged) ?merged"
  have u: "update_costs me timeout a cs d nodes = Inr ?nodes'"
    by (simp add: update_costs_def m p)
  have "map_of ?merged a = Some ?new"
    by (simp add: promote_entry)
  from pass_entry [OF p this] obtain c h
    where e: "map_of ?nodes' a = Some (?new\<lparr>cost := c, route := h\<rparr>)" by blast
  let ?n' = "?new\<lparr>cost := c, route := h\<rparr>"
  have f: "is_neighbor ?n'" "direct ?n' = Some d" "costs ?n' = Some cs" "saved ?n' = None"
    "silence_monitor ?n' = Some \<lparr>interval = 3 * timeout, func = LinkdownCallback,
                 args = a, countdown = Running\<rparr>"
    by (simp_all add: created_neighbor)
  have "linkup me a ?nodes' = Inr (Some WasntPreviousNeighbor, ?nodes')"
    by (simp add: linkup_def get_node_known [OF e] f(4))
  with u e f show ?thesis by blast
qed

theorem update_costs_discards_saved_witness:
  "neighbors_complete example_down
   \<and> map_of example_down ''B'' =
       Some (example_B\<lparr>cost := Infinity, route := [], is_neighbor := False,
          direct := Some Infinity, saved := Some (Finite 1),
          silence_monitor := Some \<lparr>interval = 3, func = LinkdownCallback, args = ''B'',
            countdown = Cancelled\<rparr>\<rparr>)
   \<and> (\<exists>nodes' n'. update_costs ''A'' 1 ''B'' [(''B'', Finite 0), (''A'', Finite 4)] (Finite 4)
             example_down = Inr nodes'
           \<and> map_of nodes' ''B'' = Some n'
           \<and> is_neighbor n' \<and> direct n' = Some (Finite 4)
           \<and> costs n' = Some [(''B'', Finite 0), (''A'', Finite 4)] \<and> saved n' = None
           \<and> silence_monitor n' = Some \<lparr>interval = 3 * 1, func = LinkdownCallback,
                 args = ''B'', countdown = Running\<rparr>
           \<and> linkup ''A'' ''B'' nodes' = Inr (Some WasntPreviousNeighbor, nodes'))"
proof -
  have c: "neighbors_complete example_down"
    by (simp add: neighbors_complete_def entry_complete_def example_down_def example_B_def
        default_node_def)
  have e: "map_of example_down ''B'' =
       Some (example_B\<lparr>cost := Infinity, route := [], is_neighbor := False,
          direct := Some Infinity, saved := Some (Finite 1),
          silence_monitor := Some \<lparr>interval = 3, func = LinkdownCallback, args = ''B'',
            countdown = Cancelled\<rparr>\<rparr>)"
    by (simp add: example_down_def)
  have n: "\<not> is_neighbor (example_B\<lparr>cost := Infinity, route := [], is_neighbor := False,
          direct := Some Infinity, saved := Some (Finite 1),
          silence_monitor := Some \<lparr>interval = 3, func = LinkdownCallback, args = ''B'',
            countdown = Cancelled\<rparr>\<rparr>)"
    by simp
  have s: "saved (example_B\<lparr>cost := Infinity, route := [], is_neighbor := False,
          direct := Some Infinity, saved := Some (Finite 1),
          silence_monitor := Some \<lparr>interval = 3, func = LinkdownCallback, args = ''B'',
            countdown = Cancelled\<rparr>\<rparr>) = Some (Finite 1)"
    by simp
  show ?thesis
    using c e update_costs_discards_saved [OF c e n s, of "''A''" 1
        "[(''B'', Finite 0), (''A'', Finite 4)]" "Finite 4"]
    by blast
qed

subsection \<open>The link commands on an address with an entry\<close>

lemma linkchange_known:
  assumes "map_of nodes a = Some n"
  shows "linkchange me a c nodes =
           (if \<not> is_neighbor n then Inr (Some NotNeighborCantChange, nodes)
            else if c < Finite 1 then Inr (Some MinimumLinkCost, nodes)
            else if saved n \<noteq> None then Inr (Some LinkCurrentlyDown, nodes)
            else recomputed me (modify a (\<lambda>m. m\<lparr>direct := Some c\<rparr>) nodes))"
  by (simp add: linkchange_def get_node_known [OF assms])

lemma linkup_known:
  assumes "map_of nodes a = Some n"
  shows "linkup me a nodes =
           (case saved n of
              None \<Rightarrow> Inr (Some WasntPreviousNeighbor, nodes)
            | Some s \<Rightarrow>
                recomputed me
                  (modify a (\<lambda>m. m\<lparr>direct := Some s, saved := None, is_neighbor := True\<rparr>) nodes))"
  by (simp add: linkup_def get_node_known [OF assms])

lemma linkdown_known:
  assumes "map_of nodes a = Some n"
  shows "linkdown me a nodes =
           (if \<not> is_neighbor n then Inr (Some NotNeighborCantTakeDown, nodes)
            else case direct n of
                   None \<Rightarrow> Inl KeyError
                 | Some d \<Rightarrow>
                     (case silence_monitor n of
                        None \<Rightarrow> Inl KeyError
                      | Some t \<Rightarrow>
                          recomputed me
                            (modify a (\<lambda>m. m\<lparr>saved := Some d, direct := Some Infinity,
                                 is_neighbor := False, silence_monitor := Some (cancel t)\<rparr>)
                               nodes)))"
  by (simp add: linkdown_def get_node_known [OF assms])

text \<open>A link that is down is not a neighbour, so the first test of \<^verbatim>\<open>linkchange\<close> answers.\<close>

lemma linkchange_not_neighbor:
  "map_of nodes a = Some n \<Longrightarrow> \<not> is_neighbor n \<Longrightarrow>
     linkchange me a c nodes = Inr (Some NotNeighborCantChange, nodes)"
  by (simp add: linkchange_known)

lemma linkchange_below_minimum:
  "map_of nodes a = Some n \<Longrightarrow> is_neighbor n \<Longrightarrow> c < Finite 1 \<Longrightarrow>
     linkchange me a c nodes = Inr (Some MinimumLinkCost, nodes)"
  by (simp add: linkchange_known)

lemma linkup_without_saved:
  "map_of nodes a = Some n \<Longrightarrow> saved n = None \<Longrightarrow>
     linkup me a nodes = Inr (Some WasntPreviousNeighbor, nodes)"
  by (simp add: linkup_known)

lemma example_linkdown: "linkdown ''A'' ''B'' example_routed = Inr (None, example_down)"
  by (simp add: linkdown_def get_node_def in_network_def getitem_def recomputed_def
      estimate_costs_def get_neighbors_def modify_def cancel_def
      example_routed_def example_down_def example_B_def default_node_def)

text \<open>
  C3 at a concrete table: C is known at cost 6 through B and is not a neighbour. When
  a vector from C is merged, the entry stored for C holds the cost +infinity of a
  fresh default entry, not the 6 computed before.
\<close>

theorem promoted_cost_is_default:
  "map_of example_routed ''C'' = Some (default_node\<lparr>cost := Finite 6, route := ''B''\<rparr>)
   \<and> merge_vector 1 ''C'' [(''C'', Finite 0), (''A'', Finite 2)] (Finite 2) example_routed =
       Inr [(''A'', default_node\<lparr>cost := Finite 0\<rparr>),
            (''B'', example_B\<lparr>cost := Infinity, route := []\<rparr>),
            (''C'', \<lparr>cost = Infinity, is_neighbor = True, route = ''C'',
                direct = Some (Finite 2),
                costs = Some [(''C'', Finite 0), (''A'', Finite 2)], saved = None,
                silence_monitor = Some \<lparr>interval = 3, func = LinkdownCallback, args = ''C'',
                  countdown = Running\<rparr>\<rparr>)]"
  by (simp add: merge_vector_def promote_def getitem_def create_node_def start_def
      create_timer_def example_routed_def example_B_def default_node_def)

text \<open>
  C4 at a concrete table: B is a neighbour and is taken down, so its entry holds a
  saved direct cost. A \<^verbatim>\<open>linkchange\<close> on B with cost 5 prints that B is not a neighbour;
  the message that the link is down and must be brought up first is not the one
  printed.
\<close>

theorem linkchange_on_down_link:
  "linkdown ''A'' ''B'' example_routed = Inr (None, example_down)
   \<and> map_option saved (map_of example_down ''B'') = Some (Some (Finite 1))
   \<and> linkchange ''A'' ''B'' (Finite 5) example_down = Inr (Some NotNeighborCantChange, example_down)"
proof -
  have "map_of example_down ''B'' =
       Some (example_B\<lparr>cost := Infinity, route := [], is_neighbor := False,
          direct := Some Infinity, saved := Some (Finite 1),
          silence_monitor := Some \<lparr>interval = 3, func = LinkdownCallback, args = ''B'',
            countdown = Cancelled\<rparr>\<rparr>)"
    by (simp add: example_down_def)
  then show ?thesis
    by (simp add: example_linkdown linkchange_known)
qed

text \<open>
  C5 at a concrete table: B is a neighbour with direct cost 1 and a running timer.
  After \<^verbatim>\<open>linkdown\<close> and then \<^verbatim>\<open>linkup\<close> on B, B is a neighbour again with direct cost 1
  and no saved cost, and the pass has run; but its timer is still cancelled.
\<close>

theorem linkup_leaves_timer_cancelled:
  "linkdown ''A'' ''B'' example_routed = Inr (None, example_down)
   \<and> linkup ''A'' ''B'' example_down =
       Inr (None,
         [(''A'', default_node\<lparr>cost := Finite 0\<rparr>),
          (''B'', \<lparr>cost = Infinity, is_neighbor = True, route = [],
              direct = Some (Finite 1),
              costs = Some [(''A'', Finite 1), (''C'', Finite 5)], saved = None,
              silence_monitor = Some \<lparr>interval = 3, func = LinkdownCallback, args = ''B'',
                countdown = Cancelled\<rparr>\<rparr>),
          (''C'', default_node\<lparr>cost := Finite 6, route := ''B''\<rparr>)])"
proof -
  have "linkup ''A'' ''B'' example_down =
       Inr (None,
         [(''A'', default_node\<lparr>cost := Finite 0\<rparr>),
          (''B'', \<lparr>cost = Infinity, is_neighbor = True, route = [],
              direct = Some (Finite 1),
              costs = Some [(''A'', Finite 1), (''C'', Finite 5)], saved = None,
              silence_monitor = Some \<lparr>interval = 3, func = LinkdownCallback, args = ''B'',
                countdown = Cancelled\<rparr>\<rparr>),
          (''C'', default_node\<lparr>cost := Finite 6, route := ''B''\<rparr>)])"
    by (simp add: linkup_def get_node_def in_network_def getitem_def recomputed_def
        estimate_costs_def get_neighbors_def modify_def
        example_down_def example_B_def default_node_def)
  then show ?thesis
    by (simp add: example_linkdown)
qed

subsection \<open>Well-formed tables\<close>

lemma wf_complete: "table_wf s \<Longrightarrow> neighbors_complete s"
  by (auto simp: table_wf_def neighbors_complete_def entry_wf_def list_all_iff)

lemma wf_default: "entry_wf (k, default_node)"
  by (simp add: entry_wf_def entry_complete_def default_node_def)

lemma wf_created: "a \<noteq> [] \<Longrightarrow> entry_wf (a, create_node timeout c True (Some d) (Some cs) a)"
  by (simp add: entry_wf_def entry_complete_def created_neighbor)

lemma wf_fields: "entry_wf (a, n) \<Longrightarrow> entry_wf (a, n\<lparr>cost := c, route := h\<rparr>)"
  by (simp add: entry_wf_def entry_complete_def)

lemma distinct_ensure_nodes:
  "distinct (map fst s) \<Longrightarrow> distinct (map fst (ensure_nodes ks s))"
  by (induction ks arbitrary: s) (simp_all add: distinct_update)

lemma distinct_promote:
  assumes "distinct (map fst s)"
  shows "distinct (map fst (promote timeout a cs d s))"
proof -
  have gone: "map_of (AList.delete a s) a = None"
    by (simp add: delete_conv')
  have p: "promote timeout a cs d s =
          AList.update a (create_node timeout Infinity True (Some d) (Some cs) a)
            (AList.delete a s @ [(a, default_node)])"
    by (simp add: promote_def getitem_absent [OF gone] default_node_def)
  have "distinct (map fst (AList.delete a s @ [(a, default_node)]))"
    using assms delete_notin_dom [of a s] by (simp add: distinct_delete)
  then show ?thesis
    unfolding p by (rule distinct_update)
qed

lemma wf_ensure_nodes: "table_wf s \<Longrightarrow> table_wf (ensure_nodes ks s)"
  by (simp add: table_wf_def distinct_ensure_nodes list_all_ensure_nodes wf_default)

lemma wf_promote: "table_wf s \<Longrightarrow> a \<noteq> [] \<Longrightarrow> table_wf (promote timeout a cs d s)"
  by (simp add: table_wf_def distinct_promote list_all_promote wf_default wf_created)

lemma wf_append_default:
  "table_wf s \<Longrightarrow> map_of s a = None \<Longrightarrow> table_wf (s @ [(a, default_node)])"
  by (simp add: table_wf_def wf_default map_of_eq_None_iff)

lemma wf_entry: "table_wf s \<Longrightarrow> map_of s a = Some n \<Longrightarrow> entry_wf (a, n)"
  by (auto simp: table_wf_def list_all_iff dest: map_of_SomeD)

lemma wf_modify:
  assumes "table_wf s" and "map_of s a = Some n" and "entry_wf (a, f n)"
  shows "table_wf (modify a f s)"
proof -
  have "list_all entry_wf (modify a f s)"
  proof (rule list_all_modify)
    show "list_all entry_wf s" using assms(1) by (simp add: table_wf_def)
    fix m assume "(a, m) \<in> set s"
    with assms(1) have "map_of s a = Some m" by (simp add: table_wf_def)
    with assms(2) have "m = n" by simp
    with assms(3) show "entry_wf (a, f m)" by simp
  qed
  then show ?thesis
    using assms(1) by (simp add: table_wf_def keys_modify)
qed

lemma map_of_ensure_present:
  "map_of s a = Some n \<Longrightarrow> map_of (ensure_nodes ks s) a = Some n"
  by (simp add: ensure_nodes_map_of)

text \<open>Merging a vector keeps a table well formed, and raises nothing on one.\<close>

lemma wf_merge_vector:
  assumes "table_wf s" and "a \<noteq> []"
  shows "\<exists>s1. merge_vector timeout a cs d s = Inr s1 \<and> table_wf s1"
proof -
  let ?s1 = "ensure_nodes (map fst cs) s"
  have w1: "table_wf ?s1" by (rule wf_ensure_nodes [OF assms(1)])
  show ?thesis
  proof (cases "map_of ?s1 a")
    case None
    have w2: "table_wf (?s1 @ [(a, default_node)])"
      by (rule wf_append_default [OF w1 None])
    have "merge_vector timeout a cs d s =
            Inr (promote timeout a cs d (?s1 @ [(a, default_node)]))"
      by (simp add: merge_vector_def getitem_absent [OF None] default_node_def)
    then show ?thesis using wf_promote [OF w2 assms(2)] by simp
  next
    case (Some n)
    show ?thesis
    proof (cases "is_neighbor n")
      case False
      have "merge_vector timeout a cs d s = Inr (promote timeout a cs d ?s1)"
        using False by (simp add: merge_vector_def getitem_present [OF Some])
      then show ?thesis using wf_promote [OF w1 assms(2)] by simp
    next
      case True
      have e: "entry_wf (a, n)" by (rule wf_entry [OF w1 Some])
      with True obtain t where t: "silence_monitor n = Some t"
        by (auto simp: entry_wf_def entry_complete_def)
      have m: "merge_vector timeout a cs d s =
            Inr (modify a (\<lambda>n. n\<lparr>costs := Some cs, silence_monitor := Some (reset t)\<rparr>) ?s1)"
        using True t by (simp add: merge_vector_def getitem_present [OF Some])
      have "entry_wf (a, n\<lparr>costs := Some cs, silence_monitor := Some (reset t)\<rparr>)"
        using e by (simp add: entry_wf_def entry_complete_def)
      then have "table_wf (modify a (\<lambda>n. n\<lparr>costs := Some cs, silence_monitor := Some (reset t)\<rparr>) ?s1)"
        by (rule wf_modify [OF w1 Some])
      with m show ?thesis by simp
    qed
  qed
qed

subsection \<open>The pass on a well-formed table\<close>

lemma less_not_Infinity: "(c::ecost) < c0 \<Longrightarrow> c \<noteq> Infinity"
  by (cases c) simp_all

lemma scan_route:
  "scan_neighbors d nbrs (c0, h0) = Inr (c, h) \<Longrightarrow>
     (c, h) = (c0, h0) \<or> (c \<noteq> Infinity \<and> h \<in> fst ` set nbrs)"
proof (induction nbrs arbitrary: c0 h0)
  case Nil
  then show ?case by simp
next
  case (Cons p rest)
  obtain na nb where p: "p = (na, nb)" by (cases p)
  from Cons.prems obtain c1 h1
    where tl: "scan_neighbors d rest (c1, h1) = Inr (c, h)"
      and acc: "(c1, h1) = (c0, h0) \<or> (c1 < c0 \<and> h1 = na)"
    unfolding p by (auto simp: Let_def split: option.splits if_splits)
  from Cons.IH [OF tl] have "(c, h) = (c1, h1) \<or> (c \<noteq> Infinity \<and> h \<in> fst ` set rest)" .
  with acc show ?case
    by (auto simp: p dest: less_not_Infinity)
qed

lemma scans_return_key:
  assumes "scans_return me s ds" and "d \<in> set ds" and "d \<noteq> me"
  shows "\<exists>c h. scan_neighbors d (get_neighbors s) (Infinity, []) = Inr (c, h)"
proof -
  from assms have "case scan_neighbors d (get_neighbors s) (Infinity, []) of
                     Inr r \<Rightarrow> True | Inl e \<Rightarrow> False"
    by (auto simp: scans_return_def list_all_iff)
  then show ?thesis
    by (cases "scan_neighbors d (get_neighbors s) (Infinity, [])") auto
qed

lemma neighbor_key_nonempty:
  assumes "table_wf s" and "h \<in> fst ` set (get_neighbors s)"
  shows "h \<noteq> []"
proof -
  from assms(2) obtain n where "(h, n) \<in> set s" and "is_neighbor n"
    by (auto simp: get_neighbors_def)
  with assms(1) have "entry_wf (h, n)" "is_neighbor n"
    by (auto simp: table_wf_def list_all_iff)
  then show ?thesis by (simp add: entry_wf_def)
qed

lemma wf_pass:
  assumes "table_wf s" and "estimate_costs me s = Inr s'"
  shows "table_wf s' \<and> routes_consistent me s'"
proof -
  from assms(2) have ok: "scans_return me s (map fst s)"
    and s': "s' = map (relaxed me s) s"
    by (auto simp: estimate_costs_closed split: if_splits)
  have "list_all entry_wf (map (relaxed me s) s)"
    using assms(1) by (intro list_all_relaxed) (simp_all add: table_wf_def wf_fields)
  then have wf: "table_wf s'"
    using assms(1) unfolding s' table_wf_def keys_relaxed by simp
  have "case relaxed me s x of (a, n) \<Rightarrow>
          a \<noteq> me \<longrightarrow> (route n \<noteq> [] \<longleftrightarrow> cost n \<noteq> Infinity)" if x: "x \<in> set s" for x
  proof -
    obtain a n where xa: "x = (a, n)" by (cases x)
    show ?thesis
    proof (cases "a = me")
      case True
      then show ?thesis by (simp add: xa relaxed_self)
    next
      case False
      have "a \<in> set (map fst s)" using x by (force simp: xa)
      from scans_return_key [OF ok this False] obtain c h
        where r: "scan_neighbors a (get_neighbors s) (Infinity, []) = Inr (c, h)" by blast
      have rel: "relaxed me s (a, n) = (a, n\<lparr>cost := c, route := h\<rparr>)"
        using False r by (simp add: relaxed_def)
      from scan_route [OF r] have "(c, h) = (Infinity, []) \<or> (c \<noteq> Infinity \<and> h \<noteq> [])"
        using neighbor_key_nonempty [OF assms(1)] by blast
      then show ?thesis
        by (auto simp: xa rel)
    qed
  qed
  then have "routes_consistent me s'"
    by (simp add: routes_consistent_def s' list_all_iff)
  with wf show ?thesis ..
qed

lemma wf_recomputed:
  assumes "table_wf s"
  shows "\<exists>s'. recomputed me s = Inr (None, s') \<and> table_wf s' \<and> routes_consistent me s'"
proof -
  from estimate_costs_complete [OF wf_complete [OF assms], of me]
  obtain s' where p: "estimate_costs me s = Inr s'" by blast
  from wf_pass [OF assms p] p show ?thesis
    by (simp add: recomputed_def)
qed

lemma consistent_append_default:
  "routes_consistent me s \<Longrightarrow> routes_consistent me (s @ [(a, default_node)])"
  by (simp add: routes_consistent_def default_node_def)

subsection \<open>Every operation keeps the table well formed and returns\<close>

lemma wf_update_costs:
  assumes "table_wf s" and "a \<noteq> []"
  shows "\<exists>s'. update_costs me timeout a cs d s = Inr s' \<and> table_wf s' \<and> routes_consistent me s'"
proof -
  from wf_merge_vector [OF assms, of timeout cs d]
  obtain s1 where m: "merge_vector timeout a cs d s = Inr s1" and w: "table_wf s1" by blast
  from wf_recomputed [OF w, of me] m show ?thesis
    by (auto simp: update_costs_def recomputed_def split: sum.splits)
qed

lemma wf_linkdown:
  assumes "table_wf s" and "routes_consistent me s"
  shows "\<exists>r s'. linkdown me a s = Inr (r, s') \<and> table_wf s' \<and> routes_consistent me s'"
proof (cases "map_of s a")
  case None
  have "linkdown me a s = Inr (Some NodeNotInNetwork, s @ [(a, default_node)])"
    by (simp add: linkdown_def get_node_unknown [OF None])
  then show ?thesis
    using wf_append_default [OF assms(1) None] consistent_append_default [OF assms(2)] by simp
next
  case (Some n)
  show ?thesis
  proof (cases "is_neighbor n")
    case False
    then show ?thesis using assms by (simp add: linkdown_known [OF Some])
  next
    case True
    have e: "entry_wf (a, n)" by (rule wf_entry [OF assms(1) Some])
    with True obtain d t where d: "direct n = Some d" and t: "silence_monitor n = Some t"
      by (auto simp: entry_wf_def entry_complete_def)
    let ?f = "\<lambda>m. m\<lparr>saved := Some d, direct := Some Infinity, is_neighbor := False,
                 silence_monitor := Some (cancel t)\<rparr>"
    have "entry_wf (a, ?f n)"
      using e True by (simp add: entry_wf_def entry_complete_def)
    then have "table_wf (modify a ?f s)" by (rule wf_modify [OF assms(1) Some])
    from wf_recomputed [OF this, of me] show ?thesis
      using True d t by (simp add: linkdown_known [OF Some]) blast
  qed
qed

lemma wf_linkup:
  assumes "table_wf s" and "routes_consistent me s"
  shows "\<exists>r s'. linkup me a s = Inr (r, s') \<and> table_wf s' \<and> routes_consistent me s'"
proof (cases "map_of s a")
  case None
  have "linkup me a s = Inr (Some NodeNotInNetwork, s @ [(a, default_node)])"
    by (simp add: linkup_def get_node_unknown [OF None])
  then show ?thesis
    using wf_append_default [OF assms(1) None] consistent_append_default [OF assms(2)] by simp
next
  case (Some n)
  show ?thesis
  proof (cases "saved n")
    case None
    then show ?thesis using assms by (simp add: linkup_known [OF Some])
  next
    case (Some sv)
    have e: "entry_wf (a, n)" by (rule wf_entry [OF assms(1) \<open>map_of s a = Some n\<close>])
    let ?f = "\<lambda>m. m\<lparr>direct := Some sv, saved := None, is_neighbor := True\<rparr>"
    have "entry_wf (a, ?f n)"
      using e Some by (simp add: entry_wf_def entry_complete_def)
    then have "table_wf (modify a ?f s)"
      by (rule wf_modify [OF assms(1) \<open>map_of s a = Some n\<close>])
    from wf_recomputed [OF this, of me] show ?thesis
      using Some by (simp add: linkup_known [OF \<open>map_of s a = Some n\<close>]) blast
  qed
qed

lemma wf_linkchange:
  assumes "table_wf s" and "routes_consistent me s"
  shows "\<exists>r s'. linkchange me a c s = Inr (r, s') \<and> r \<noteq> Some LinkCurrentlyDown
           \<and> table_wf s' \<and> routes_consistent me s'"
proof (cases "map_of s a")
  case None
  have "linkchange me a c s = Inr (Some NodeNotInNetwork, s @ [(a, default_node)])"
    by (simp add: linkchange_def get_node_unknown [OF None])
  then show ?thesis
    using wf_append_default [OF assms(1) None] consistent_append_default [OF assms(2)] by simp
next
  case (Some n)
  have e: "entry_wf (a, n)" by (rule wf_entry [OF assms(1) Some])
  show ?thesis
  proof (cases "is_neighbor n \<and> \<not> c < Finite 1")
    case False
    then show ?thesis using assms by (auto simp: linkchange_known [OF Some])
  next
    case True
    with e have sv: "saved n = None" by (auto simp: entry_wf_def)
    let ?f = "\<lambda>m. m\<lparr>direct := Some c\<rparr>"
    have "entry_wf (a, ?f n)"
      using e by (simp add: entry_wf_def entry_complete_def)
    then have "table_wf (modify a ?f s)" by (rule wf_modify [OF assms(1) Some])
    from wf_recomputed [OF this, of me] show ?thesis
      using True sv by (auto simp: linkchange_known [OF Some])
  qed
qed

lemma reachable_wf: "reachable me timeout s \<Longrightarrow> table_wf s \<and> routes_consistent me s"
proof (induction rule: reachable.induct)
  case (initial nodes)
  have "entry_wf x \<and> (case x of (a, n) \<Rightarrow>
          a \<noteq> me \<longrightarrow> (route n \<noteq> [] \<longleftrightarrow> cost n \<noteq> Infinity))" if "x \<in> set nodes" for x
  proof -
    obtain a n where x: "x = (a, n)" by (cases x)
    with that initial(2) have "n = default_node" by (auto simp: list_all_iff)
    then show ?thesis by (simp add: x wf_default) (simp add: default_node_def)
  qed
  with initial(1) show ?case
    by (simp add: table_wf_def routes_consistent_def list_all_iff)
next
  case (merged nodes a cs d nodes')
  with wf_update_costs [of nodes a me timeout cs d] show ?case by auto
next
  case (taken_down nodes a r nodes')
  with wf_linkdown [of nodes me a] show ?case by auto
next
  case (brought_up nodes a r nodes')
  with wf_linkup [of nodes me a] show ?case by auto
next
  case (changed nodes a c r nodes')
  with wf_linkchange [of nodes me a c] show ?case by auto
qed

text \<open>
  C9: in every table reachable from default entries by completed operations (a merged
  vector from a sender with a \<^verbatim>\<open>host:port\<close> key, a \<^verbatim>\<open>linkdown\<close> by command or by silence
  expiry, a \<^verbatim>\<open>linkup\<close>, a \<^verbatim>\<open>linkchange\<close>; a broadcast changes no table), an entry other than
  the one of \<open>me\<close> has a route that is not empty exactly when its cost is finite.
\<close>

theorem reachable_route_iff_finite:
  assumes "reachable me timeout nodes" and "(a, n) \<in> set nodes" and "a \<noteq> me"
  shows "route n \<noteq> [] \<longleftrightarrow> cost n \<noteq> Infinity"
proof -
  from reachable_wf [OF assms(1)] have "routes_consistent me nodes" ..
  with assms(2,3) show ?thesis
    by (auto simp: routes_consistent_def list_all_iff)
qed

lemma example_merge:
  "update_costs ''A'' 1 ''B'' [(''A'', Finite 1), (''C'', Finite 5)] (Finite 1)
       [(''A'', default_node)] =
     Inr [(''A'', default_node),
          (''C'', default_node\<lparr>cost := Finite 6, route := ''B''\<rparr>),
          (''B'', \<lparr>cost = Infinity, is_neighbor = True, route = [],
              direct = Some (Finite 1),
              costs = Some [(''A'', Finite 1), (''C'', Finite 5)], saved = None,
              silence_monitor = Some \<lparr>interval = 3, func = LinkdownCallback, args = ''B'',
                countdown = Running\<rparr>\<rparr>)]"
  by (simp add: update_costs_def merge_vector_def promote_def getitem_def create_node_def
      start_def create_timer_def estimate_costs_def get_neighbors_def modify_def
      default_node_def)

theorem reachable_route_iff_finite_witness:
  "reachable ''A'' 1
     [(''A'', default_node),
      (''C'', default_node\<lparr>cost := Finite 6, route := ''B''\<rparr>),
      (''B'', \<lparr>cost = Infinity, is_neighbor = True, route = [],
          direct = Some (Finite 1),
          costs = Some [(''A'', Finite 1), (''C'', Finite 5)], saved = None,
          silence_monitor = Some \<lparr>interval = 3, func = LinkdownCallback, args = ''B'',
            countdown = Running\<rparr>\<rparr>)]
   \<and> ''C'' \<noteq> ''A''
   \<and> (route (default_node\<lparr>cost := Finite 6, route := ''B''\<rparr>) \<noteq> []
        \<longleftrightarrow> cost (default_node\<lparr>cost := Finite 6, route := ''B''\<rparr>) \<noteq> Infinity)"
proof -
  have r0: "reachable ''A'' 1 [(''A'', default_node)]"
    by (rule reachable.initial) simp_all
  have r: "reachable ''A'' 1
     [(''A'', default_node),
      (''C'', default_node\<lparr>cost := Finite 6, route := ''B''\<rparr>),
      (''B'', \<lparr>cost = Infinity, is_neighbor = True, route = [],
          direct = Some (Finite 1),
          costs = Some [(''A'', Finite 1), (''C'', Finite 5)], saved = None,
          silence_monitor = Some \<lparr>interval = 3, func = LinkdownCallback, args = ''B'',
            countdown = Running\<rparr>\<rparr>)]"
    by (rule reachable.merged [OF r0 _ example_merge]) simp_all
  have ne: "''C'' \<noteq> ''A''" by simp
  show ?thesis
    using r ne reachable_route_iff_finite [OF r _ ne,
        of "default_node\<lparr>cost := Finite 6, route := ''B''\<rparr>"]
    by simp
qed

subsection \<open>Taking a link down and bringing it up again\<close>

lemma recomputed_entry_kept:
  assumes "recomputed me s = Inr (r, s')" and "map_of s k = Some n"
  shows "\<exists>c h. map_of s' k = Some (n\<lparr>cost := c, route := h\<rparr>)"
proof -
  from assms(1) have "estimate_costs me s = Inr s'"
    by (auto simp: recomputed_def split: sum.splits)
  then show ?thesis using assms(2) by (rule pass_entry)
qed

text \<open>
  On a well-formed table, \<^verbatim>\<open>linkdown\<close> and then \<^verbatim>\<open>linkup\<close> on a neighbour both return
  without a message; afterwards the entry is a neighbour again, its direct cost is the
  one it had, no saved cost is left, and its timer is the old one, cancelled.
\<close>

lemma linkdown_linkup_restores:
  assumes "table_wf s" and "map_of s a = Some n" and "is_neighbor n"
  shows "\<exists>s1 s2 n2 t. linkdown me a s = Inr (None, s1) \<and> linkup me a s1 = Inr (None, s2)
           \<and> map_of s2 a = Some n2 \<and> direct n2 = direct n \<and> saved n2 = None
           \<and> is_neighbor n2 \<and> costs n2 = costs n
           \<and> silence_monitor n = Some t \<and> silence_monitor n2 = Some (cancel t)"
proof -
  have e: "entry_wf (a, n)" by (rule wf_entry [OF assms(1,2)])
  with assms(3) obtain d t where d: "direct n = Some d" and t: "silence_monitor n = Some t"
    by (auto simp: entry_wf_def entry_complete_def)
  let ?f = "\<lambda>m. m\<lparr>saved := Some d, direct := Some Infinity, is_neighbor := False,
               silence_monitor := Some (cancel t)\<rparr>"
  have down: "linkdown me a s = recomputed me (modify a ?f s)"
    using assms(3) d t by (simp add: linkdown_known [OF assms(2)])
  have "entry_wf (a, ?f n)"
    using e assms(3) by (simp add: entry_wf_def entry_complete_def)
  then have w1: "table_wf (modify a ?f s)" by (rule wf_modify [OF assms(1,2)])
  from wf_recomputed [OF w1, of me] obtain s1
    where r1: "recomputed me (modify a ?f s) = Inr (None, s1)" and ws1: "table_wf s1" by blast
  have "map_of (modify a ?f s) a = Some (?f n)"
    by (simp add: map_of_modify assms(2))
  from recomputed_entry_kept [OF r1 this] obtain c1 h1
    where m1: "map_of s1 a = Some ((?f n)\<lparr>cost := c1, route := h1\<rparr>)" by blast
  let ?n1 = "(?f n)\<lparr>cost := c1, route := h1\<rparr>"
  let ?g = "\<lambda>m. m\<lparr>direct := Some d, saved := None, is_neighbor := True\<rparr>"
  have up: "linkup me a s1 = recomputed me (modify a ?g s1)"
    by (simp add: linkup_known [OF m1])
  have "entry_wf (a, ?n1)" by (rule wf_entry [OF ws1 m1])
  then have "entry_wf (a, ?g ?n1)"
    by (simp add: entry_wf_def entry_complete_def)
  then have w2: "table_wf (modify a ?g s1)" by (rule wf_modify [OF ws1 m1])
  from wf_recomputed [OF w2, of me] obtain s2
    where r2: "recomputed me (modify a ?g s1) = Inr (None, s2)" by blast
  have "map_of (modify a ?g s1) a = Some (?g ?n1)"
    by (simp add: map_of_modify m1)
  from recomputed_entry_kept [OF r2 this] obtain c2 h2
    where m2: "map_of s2 a = Some ((?g ?n1)\<lparr>cost := c2, route := h2\<rparr>)" by blast
  let ?n2 = "(?g ?n1)\<lparr>cost := c2, route := h2\<rparr>"
  have "direct ?n2 = direct n" "saved ?n2 = None" "is_neighbor ?n2" "costs ?n2 = costs n"
    "silence_monitor ?n2 = Some (cancel t)"
    by (simp_all add: d)
  with down r1 up r2 m2 t show ?thesis by force
qed

subsection \<open>The silence timer\<close>

lemma reset_running: "reset t = t\<lparr>countdown := Running\<rparr>"
  by (simp add: reset_def start_def create_timer_def cancel_def)

lemma created_timer:
  "silence_monitor (create_node timeout c True d cs a) =
     Some \<lparr>interval = 3 * timeout, func = LinkdownCallback, args = a, countdown = Running\<rparr>"
  by (simp add: create_node_def Let_def start_def create_timer_def)

lemma expire_running: "countdown t = Running \<Longrightarrow> expire me t nodes = linkdown me (args t) nodes"
  by (cases "func t") (simp add: expire_def)

lemma merge_vector_neighbor:
  assumes "map_of nodes a = Some n" and "is_neighbor n" and "silence_monitor n = Some t"
  shows "\<exists>s1. merge_vector timeout a cs d nodes = Inr s1
           \<and> map_of s1 a = Some (n\<lparr>costs := Some cs,
                 silence_monitor := Some (t\<lparr>countdown := Running\<rparr>)\<rparr>)"
proof -
  let ?s0 = "ensure_nodes (map fst cs) nodes"
  have p: "map_of ?s0 a = Some n" by (rule map_of_ensure_present [OF assms(1)])
  have "merge_vector timeout a cs d nodes =
          Inr (modify a (\<lambda>n. n\<lparr>costs := Some cs, silence_monitor := Some (reset t)\<rparr>) ?s0)"
    using assms(2,3) by (simp add: merge_vector_def getitem_present [OF p])
  then show ?thesis
    by (simp add: map_of_modify p reset_running)
qed

end
